theory Spec2Isabelle
  imports Complex_Main "HOL-Library.AList"
begin

section \<open>Occupancy processor (v2/edge/services/occupancy.py)\<close>

text \<open>
  Python floats (coordinates, confidences, \<open>time.time()\<close> readings) are read as real
  numbers; the state names are the Python strings themselves. \<open>time.time()\<close> is an
  input of the model: every call takes the clock reading it makes as \<open>current_time\<close>.
\<close>

type_synonym point = "real \<times> real"

datatype py_error = TypeError | KeyError | ValueError | ZeroDivisionError | OverflowError

record SlotState =
  slot_id :: string
  polygon :: "point list"
  current_state :: string
  confidence :: real
  last_change :: real
  pending_state :: "string option"
  pending_since :: "real option"
  dwell_start :: real

record Detection =
  center :: point
  det_confidence :: real

record Event =
  ev_slot_id :: string
  ev_state :: string
  ev_previous_state :: string
  ev_confidence :: real
  ev_ts_utc :: string
  ev_dwell_s :: int
  ev_roi_version :: string

record OccupancyProcessor =
  debounce_seconds :: real
  enter_threshold :: real
  exit_threshold :: real
  capture_resolution :: "real \<times> real"
  slots :: "(string \<times> SlotState) list"
  roi_version :: string

subsection \<open>Point in polygon: \<open>shapely\<close>'s \<open>Polygon.contains(Point)\<close>\<close>

text \<open>
  The processor calls \<open>slot_state.polygon.contains(center)\<close> of the \<open>shapely\<close>
  library. By the library's definition, \<open>a.contains(b)\<close> holds when no point of
  \<open>b\<close> lies in the exterior of \<open>a\<close> and a point of the interior of \<open>b\<close> lies in
  the interior of \<open>a\<close>; for a point \<open>b\<close> that is: the point is located in the
  interior of the polygon, a point of the boundary is not contained. The polygon is the
  ring through the given vertices, closed from the last vertex back to the first; the
  location is found by the crossing number of the ray from the point towards larger x.
\<close>

datatype Location = INTERIOR | BOUNDARY | EXTERIOR

definition orientation :: "point \<Rightarrow> point \<Rightarrow> point \<Rightarrow> real" where
  "orientation a b p =
     (fst b - fst a) * (snd p - snd a) - (snd b - snd a) * (fst p - fst a)"

definition ring_edges :: "point list \<Rightarrow> (point \<times> point) list" where
  "ring_edges ps = (case ps of [] \<Rightarrow> [] | q # qs \<Rightarrow> zip ps (qs @ [q]))"

definition on_segment :: "point \<Rightarrow> point \<times> point \<Rightarrow> bool" where
  "on_segment p e =
     (case e of (a, b) \<Rightarrow>
        orientation a b p = 0 \<and>
        min (fst a) (fst b) \<le> fst p \<and> fst p \<le> max (fst a) (fst b) \<and>
        min (snd a) (snd b) \<le> snd p \<and> snd p \<le> max (snd a) (snd b))"

definition ray_crosses :: "point \<Rightarrow> point \<times> point \<Rightarrow> bool" where
  "ray_crosses p e =
     (case e of (a, b) \<Rightarrow>
        (snd a \<le> snd p \<and> snd p < snd b \<and> 0 < orientation a b p) \<or>
        (snd b \<le> snd p \<and> snd p < snd a \<and> orientation a b p < 0))"

definition locate :: "point list \<Rightarrow> point \<Rightarrow> Location" where
  "locate ps p =
     (if list_ex (on_segment p) (ring_edges ps) then BOUNDARY
      else if odd (length (filter (ray_crosses p) (ring_edges ps))) then INTERIOR
      else EXTERIOR)"

definition contains :: "point list \<Rightarrow> point \<Rightarrow> bool" where
  "contains ps p = (locate ps p = INTERIOR)"

subsection \<open>Loading the slots\<close>

text \<open>
  The configuration file, after \<open>json.load\<close>: \<open>None\<close> for a file that is missing or
  does not parse, and \<open>None\<close> for a slot entry without \<open>slot_id\<close> or \<open>poly\<close>.
  \<open>self.slots\<close> is a dict: an association list in insertion order, written with
  \<open>AList.update\<close> (a key already present keeps its place and takes the new value).
\<close>

record SlotsConfig =
  cfg_roi_version :: "string option"
  cfg_image_size :: "(real \<times> real) option"
  cfg_slots :: "(string \<times> point list) option list"

definition new_SlotState :: "string \<Rightarrow> point list \<Rightarrow> real \<Rightarrow> real \<Rightarrow> SlotState" where
  "new_SlotState sid poly t1 t2 =
     \<lparr> slot_id = sid, polygon = poly, current_state = ''unknown'', confidence = 0,
       last_change = t1, pending_state = None, pending_since = None, dwell_start = t2 \<rparr>"

text \<open>\<open>Polygon(points)\<close> raises for one or two points (a ring needs three).\<close>

definition Polygon :: "point list \<Rightarrow> py_error + point list" where
  "Polygon ps = (if length ps = 1 \<or> length ps = 2 then Inl ValueError else Inr ps)"

text \<open>
  The loop over \<open>config['slots']\<close>. The first entry that raises ends the loading (the
  \<open>except\<close> of \<open>_load_slots\<close> only logs), the slots stored before it stay. The clock
  \<open>clock\<close> gives the readings of \<open>time.time()\<close> by the number of the reading: each
  \<open>SlotState\<close> built takes two, for \<open>last_change\<close> and \<open>dwell_start\<close>.
\<close>

fun load_loop ::
  "real \<Rightarrow> real \<Rightarrow> (nat \<Rightarrow> real) \<Rightarrow> nat \<Rightarrow> (string \<times> point list) option list \<Rightarrow>
   (string \<times> SlotState) list \<Rightarrow> (string \<times> SlotState) list" where
  "load_loop sx sy clock n [] acc = acc"
| "load_loop sx sy clock n (None # ds) acc = acc"
| "load_loop sx sy clock n (Some (sid, points) # ds) acc =
     (case Polygon (map (\<lambda>p. (fst p * sx, snd p * sy)) points) of
        Inl e \<Rightarrow> acc
      | Inr poly \<Rightarrow>
          load_loop sx sy clock (n + 2) ds
            (AList.update sid (new_SlotState sid poly (clock n) (clock (n + 1))) acc))"

definition load_slots ::
  "real \<times> real \<Rightarrow> (nat \<Rightarrow> real) \<Rightarrow> SlotsConfig option \<Rightarrow> (string \<times> SlotState) list" where
  "load_slots res clock config =
     (case config of
        None \<Rightarrow> []
      | Some c \<Rightarrow>
          (let original_size = (case cfg_image_size c of None \<Rightarrow> res | Some s \<Rightarrow> s)
           in if fst original_size = 0 \<or> snd original_size = 0 then []
              else load_loop (fst res / fst original_size) (snd res / snd original_size)
                     clock 0 (cfg_slots c) []))"

text \<open>
  \<open>__init__\<close>: the thresholds, then \<open>_load_slots\<close>, then \<open>self._roi_version = "v1"\<close>
  (which comes after the loading and so replaces the version read from the file).
\<close>

definition init ::
  "real \<Rightarrow> real \<Rightarrow> real \<Rightarrow> real \<times> real \<Rightarrow> (nat \<Rightarrow> real) \<Rightarrow> SlotsConfig option \<Rightarrow>
   OccupancyProcessor" where
  "init debounce enter exit res clock config =
     \<lparr> debounce_seconds = debounce, enter_threshold = enter, exit_threshold = exit,
       capture_resolution = res, slots = load_slots res clock config,
       roi_version = ''v1'' \<rparr>"

subsection \<open>\<open>_update_slot_state\<close>\<close>

text \<open>The hysteresis thresholds: the state the debounce step sees.\<close>

definition hysteresis :: "OccupancyProcessor \<Rightarrow> string \<Rightarrow> string \<Rightarrow> real \<Rightarrow> string" where
  "hysteresis p cur new_state conf =
     (if cur = ''free'' \<and> new_state = ''occupied'' then
        (if conf < enter_threshold p then ''free'' else new_state)
      else if cur = ''occupied'' \<and> new_state = ''free'' then
        (if conf < exit_threshold p then ''occupied'' else new_state)
      else new_state)"

text \<open>\<open>int(x)\<close> of a float: the integer towards zero.\<close>

definition py_int :: "real \<Rightarrow> int" where
  "py_int x = (if 0 \<le> x then \<lfloor>x\<rfloor> else \<lceil>x\<rceil>)"

text \<open>
  The result is the slot as the call leaves it and the event returned, if any.
  \<open>current_time - slot.pending_since\<close> raises \<open>TypeError\<close> when \<open>pending_since\<close> is
  \<open>None\<close>.
\<close>

definition update_slot_state ::
  "OccupancyProcessor \<Rightarrow> SlotState \<Rightarrow> string \<Rightarrow> real \<Rightarrow> string \<Rightarrow> real \<Rightarrow>
   py_error + (SlotState \<times> Event option)" where
  "update_slot_state p slot new_state0 conf timestamp current_time =
     (let new_state = hysteresis p (current_state slot) new_state0 conf in
      if new_state \<noteq> current_state slot then
        (if pending_state slot \<noteq> Some new_state then
           Inr (slot\<lparr>pending_state := Some new_state,
                      pending_since := Some current_time,
                      confidence := conf\<rparr>, None)
         else
           (case pending_since slot of
              None \<Rightarrow> Inl TypeError
            | Some since \<Rightarrow>
                if current_time - since \<ge> debounce_seconds p then
                  Inr (slot\<lparr>current_state := new_state,
                             last_change := current_time,
                             dwell_start := current_time,
                             pending_state := None,
                             pending_since := None\<rparr>,
                       Some \<lparr> ev_slot_id = slot_id slot,
                              ev_state = new_state,
                              ev_previous_state = current_state slot,
                              ev_confidence = conf,
                              ev_ts_utc = timestamp,
                              ev_dwell_s = py_int (current_time - dwell_start slot),
                              ev_roi_version = roi_version p \<rparr>)
                else Inr (slot, None)))
      else
        Inr (slot\<lparr>pending_state := None, pending_since := None, confidence := conf\<rparr>,
             None))"

subsection \<open>\<open>process_detections\<close>\<close>

text \<open>
  \<open>slot_occupancy\<close> and \<open>slot_confidence\<close> are dicts with the keys of \<open>self.slots\<close>,
  read and written at those keys only: functions of the key, \<open>False\<close> and \<open>0.0\<close> at
  the start.
\<close>

definition check_detection ::
  "(string \<times> SlotState) list \<Rightarrow> Detection \<Rightarrow>
   (string \<Rightarrow> bool) \<times> (string \<Rightarrow> real) \<Rightarrow> (string \<Rightarrow> bool) \<times> (string \<Rightarrow> real)" where
  "check_detection ss d =
     fold (\<lambda>(k, s) (occ, cf).
             if contains (polygon s) (center d)
             then (occ(k := True), cf(k := max (cf k) (det_confidence d)))
             else (occ, cf)) ss"

definition check_slots ::
  "(string \<times> SlotState) list \<Rightarrow> Detection list \<Rightarrow> (string \<Rightarrow> bool) \<times> (string \<Rightarrow> real)" where
  "check_slots ss ds = fold (check_detection ss) ds (\<lambda>k. False, \<lambda>k. 0)"

definition slot_occupancy :: "(string \<times> SlotState) list \<Rightarrow> Detection list \<Rightarrow> string \<Rightarrow> bool" where
  "slot_occupancy ss ds = fst (check_slots ss ds)"

definition slot_confidence :: "(string \<times> SlotState) list \<Rightarrow> Detection list \<Rightarrow> string \<Rightarrow> real" where
  "slot_confidence ss ds = snd (check_slots ss ds)"

text \<open>The state and the confidence handed to \<open>_update_slot_state\<close> for a slot.\<close>

definition observed_state :: "(string \<Rightarrow> bool) \<Rightarrow> string \<Rightarrow> string" where
  "observed_state occ k = (if occ k then ''occupied'' else ''free'')"

definition observed_confidence :: "(string \<Rightarrow> bool) \<Rightarrow> (string \<Rightarrow> real) \<Rightarrow> string \<Rightarrow> real" where
  "observed_confidence occ cf k = (if occ k then cf k else 1 - cf k)"

text \<open>
  The second loop, over the items of \<open>slot_occupancy\<close> (the keys of \<open>self.slots\<close> in
  their order); each slot object is updated in place.
\<close>

fun update_slots ::
  "OccupancyProcessor \<Rightarrow> (string \<Rightarrow> bool) \<Rightarrow> (string \<Rightarrow> real) \<Rightarrow> string \<Rightarrow> real \<Rightarrow>
   (string \<times> SlotState) list \<Rightarrow> py_error + ((string \<times> SlotState) list \<times> Event list)" where
  "update_slots p occ cf timestamp current_time [] = Inr ([], [])"
| "update_slots p occ cf timestamp current_time ((k, slot) # rest) =
     (case update_slot_state p slot (observed_state occ k) (observed_confidence occ cf k)
             timestamp current_time of
        Inl e \<Rightarrow> Inl e
      | Inr (slot', event) \<Rightarrow>
          (case update_slots p occ cf timestamp current_time rest of
             Inl e \<Rightarrow> Inl e
           | Inr (rest', events) \<Rightarrow>
               Inr ((k, slot') # rest',
                    (case event of None \<Rightarrow> events | Some ev \<Rightarrow> ev # events))))"

definition process_detections ::
  "OccupancyProcessor \<Rightarrow> Detection list \<Rightarrow> string \<Rightarrow> real \<Rightarrow>
   py_error + (OccupancyProcessor \<times> Event list)" where
  "process_detections p detections timestamp current_time =
     (case check_slots (slots p) detections of
        (occ, cf) \<Rightarrow>
          (case update_slots p occ cf timestamp current_time (slots p) of
             Inl e \<Rightarrow> Inl e
           | Inr (ss, events) \<Rightarrow> Inr (p\<lparr>slots := ss\<rparr>, events)))"

text \<open>
  A sequence of calls, each with its detections, its frame timestamp and its clock
  reading; the result is the processor after the last call and the events of each call.
\<close>

fun process_frames ::
  "OccupancyProcessor \<Rightarrow> (Detection list \<times> string \<times> real) list \<Rightarrow>
   py_error + (OccupancyProcessor \<times> Event list list)" where
  "process_frames p [] = Inr (p, [])"
| "process_frames p ((ds, ts, now) # fs) =
     (case process_detections p ds ts now of
        Inl e \<Rightarrow> Inl e
      | Inr (p', events) \<Rightarrow>
          (case process_frames p' fs of
             Inl e \<Rightarrow> Inl e
           | Inr (p'', out) \<Rightarrow> Inr (p'', events # out)))"

subsection \<open>\<open>get_summary\<close>\<close>

record Summary =
  free_count :: nat
  occupied_count :: nat
  unknown_count :: nat
  total_slots :: nat
  sum_ts_utc :: string
  sum_roi_version :: string

definition get_summary :: "OccupancyProcessor \<Rightarrow> string \<Rightarrow> Summary" where
  "get_summary p now_iso =
     \<lparr> free_count = length (filter (\<lambda>s. current_state s = ''free'') (map snd (slots p))),
       occupied_count = length (filter (\<lambda>s. current_state s = ''occupied'') (map snd (slots p))),
       unknown_count = length (filter (\<lambda>s. current_state s = ''unknown'') (map snd (slots p))),
       total_slots = length (slots p),
       sum_ts_utc = now_iso,
       sum_roi_version = roi_version p \<rparr>"

subsection \<open>Notions used in the statements\<close>

text \<open>The events of one call that belong to the slot \<open>k\<close>.\<close>

definition slot_events :: "string \<Rightarrow> Event list \<Rightarrow> Event list" where
  "slot_events k events = filter (\<lambda>e. ev_slot_id e = k) events"

text \<open>
  What holds of every slot map the program builds: the keys of the dict are distinct,
  each slot is stored under its own \<open>slot_id\<close>, and \<open>pending_since\<close> is set
  whenever \<open>pending_state\<close> is (they are written together).
\<close>

definition slot_ok :: "string \<times> SlotState \<Rightarrow> bool" where
  "slot_ok ks = (slot_id (snd ks) = fst ks \<and>
                 (pending_state (snd ks) \<noteq> None \<longrightarrow> pending_since (snd ks) \<noteq> None))"

definition slots_ok :: "(string \<times> SlotState) list \<Rightarrow> bool" where
  "slots_ok ss = (distinct (map fst ss) \<and> list_all slot_ok ss)"

text \<open>
  \<open>_update_slot_state\<close> applied to one slot for a sequence of observations
  (observed state, confidence, timestamp, clock reading): the slot at the end and the
  event of each step.
\<close>

fun slot_steps ::
  "OccupancyProcessor \<Rightarrow> SlotState \<Rightarrow> (string \<times> real \<times> string \<times> real) list \<Rightarrow>
   py_error + (SlotState \<times> Event option list)" where
  "slot_steps p s [] = Inr (s, [])"
| "slot_steps p s ((ns, c, ts, now) # os) =
     (case update_slot_state p s ns c ts now of
        Inl e \<Rightarrow> Inl e
      | Inr (s', ev) \<Rightarrow>
          (case slot_steps p s' os of
             Inl e \<Rightarrow> Inl e
           | Inr (s'', evs) \<Rightarrow> Inr (s'', ev # evs)))"

text \<open>The event of a confirmed transition of the slot \<open>s\<close> to the state \<open>S\<close>.\<close>

definition confirm_event ::
  "OccupancyProcessor \<Rightarrow> SlotState \<Rightarrow> string \<Rightarrow> real \<Rightarrow> string \<Rightarrow> real \<Rightarrow> Event" where
  "confirm_event p s S c ts now =
     \<lparr> ev_slot_id = slot_id s, ev_state = S, ev_previous_state = current_state s,
       ev_confidence = c, ev_ts_utc = ts,
       ev_dwell_s = py_int (now - dwell_start s), ev_roi_version = roi_version p \<rparr>"

text \<open>An observation made earlier than \<open>D\<close> after \<open>t0\<close>.\<close>

definition early :: "real \<Rightarrow> real \<Rightarrow> (string \<times> real \<times> string \<times> real) \<Rightarrow> bool" where
  "early D t0 ob = (snd (snd (snd ob)) - t0 < D)"

text \<open>The keys and polygons of a slot map: all that the containment check reads.\<close>

definition footprint :: "(string \<times> SlotState) list \<Rightarrow> (string \<times> point list) list" where
  "footprint ss = map (\<lambda>ks. (fst ks, polygon (snd ks))) ss"

text \<open>
  What a call (detections, timestamp, clock reading) hands to \<open>_update_slot_state\<close>
  for the slot \<open>k\<close>.
\<close>

definition observe ::
  "(string \<times> SlotState) list \<Rightarrow> string \<Rightarrow> Detection list \<times> string \<times> real \<Rightarrow>
   string \<times> real \<times> string \<times> real" where
  "observe ss k f =
     (case f of (ds, ts, now) \<Rightarrow>
        (observed_state (slot_occupancy ss ds) k,
         observed_confidence (slot_occupancy ss ds) (slot_confidence ss ds) k, ts, now))"

definition event_list :: "Event option \<Rightarrow> Event list" where
  "event_list ev = (case ev of None \<Rightarrow> [] | Some e \<Rightarrow> [e])"

text \<open>
  The clock reading of a call; a call in the window of length \<open>D\<close> that began at
  \<open>t0\<close>; the state observed for the slot after the hysteresis gate, for a slot whose
  \<open>current_state\<close> is \<open>cur\<close>; the event of the transition to \<open>S\<close> confirmed at the
  call \<open>f\<close>.
\<close>

definition frame_time :: "Detection list \<times> string \<times> real \<Rightarrow> real" where
  "frame_time f = snd (snd f)"

definition in_window :: "real \<Rightarrow> real \<Rightarrow> Detection list \<times> string \<times> real \<Rightarrow> bool" where
  "in_window D t0 f = (frame_time f - t0 < D)"

definition gated_state ::
  "OccupancyProcessor \<Rightarrow> (string \<times> SlotState) list \<Rightarrow> string \<Rightarrow> string \<Rightarrow>
   Detection list \<times> string \<times> real \<Rightarrow> string" where
  "gated_state p ss k cur f =
     hysteresis p cur (fst (observe ss k f)) (fst (snd (observe ss k f)))"

definition frame_event ::
  "OccupancyProcessor \<Rightarrow> string \<Rightarrow> SlotState \<Rightarrow> string \<Rightarrow>
   Detection list \<times> string \<times> real \<Rightarrow> Event" where
  "frame_event p k s S f =
     confirm_event p s S (fst (snd (observe (slots p) k f))) (fst (snd f)) (frame_time f)"

text \<open>
  The events for the slot, call by call, when a disagreement begins at the call \<open>f0\<close>
  and the calls \<open>fs\<close> follow: none at \<open>f0\<close>, none while the calls are in the window,
  the event at the first call that is not, none after it.
\<close>

definition debounce_trace ::
  "OccupancyProcessor \<Rightarrow> string \<Rightarrow> SlotState \<Rightarrow> string \<Rightarrow>
   Detection list \<times> string \<times> real \<Rightarrow> (Detection list \<times> string \<times> real) list \<Rightarrow>
   Event list list" where
  "debounce_trace p k s S f0 fs =
     [] # replicate (length (takeWhile (in_window (debounce_seconds p) (frame_time f0)) fs)) [] @
       (case dropWhile (in_window (debounce_seconds p) (frame_time f0)) fs of
          [] \<Rightarrow> []
        | f # rest \<Rightarrow> [frame_event p k s S f] # replicate (length rest) [])"

text \<open>The fixture of the repository's tests (tests/server/test\_occupancy.py).\<close>

definition test_config :: SlotsConfig where
  "test_config =
     \<lparr> cfg_roi_version = Some ''test_v1'', cfg_image_size = Some (1920, 1080),
       cfg_slots = [Some (''TEST_001'', [(100, 100), (200, 100), (200, 200), (100, 200)]),
                    Some (''TEST_002'', [(300, 100), (400, 100), (400, 200), (300, 200)])] \<rparr>"

definition test_processor :: OccupancyProcessor where
  "test_processor = init (1/10) (1/2) (1/2) (1920, 1080) (\<lambda>n. 0) (Some test_config)"

definition test_detection :: Detection where
  "test_detection = \<lparr> center = (150, 150), det_confidence = 9/10 \<rparr>"

text \<open>A slot whose \<open>current_state\<close> is one of the three names.\<close>

definition known_state :: "string \<times> SlotState \<Rightarrow> bool" where
  "known_state ks = (current_state (snd ks) = ''free'' \<or> current_state (snd ks) = ''occupied'' \<or>
                     current_state (snd ks) = ''unknown'')"

section \<open>Stats sender (v2/edge/services/stats\_sender.py)\<close>

text \<open>
  The sender is modelled with the two things it acts on: the SQLite table
  \<open>event_buffer\<close> (its rows in the order of insertion, and the counter behind
  \<open>AUTOINCREMENT\<close>) and the network (the list of the POST requests made, oldest
  first). What a call meets outside the program is an input of the call: the outcome of
  \<open>requests.post\<close> (a response with its status code, or \<open>RequestException\<close>),
  whether the database operations succeed, and the clock.
\<close>

datatype http_result = Response int | RequestException

record Env =
  http :: http_result
  db_read_ok :: bool
  db_write_ok :: bool
  now_iso :: string

record BufferRow =
  row_id :: nat
  event_type :: string
  payload :: string
  row_timestamp :: string
  retry_count :: nat

datatype Request =
    PostEvents "Event list" string bool
  | PostSummary Summary
  | PostHealth "(string \<times> string) list"
  | PostProcessingLog int real int int

record StatsSender =
  events_sent :: nat
  events_failed :: nat
  events_buffered :: nat
  events_replayed :: nat
  summaries_sent :: nat
  event_buffer :: "BufferRow list"
  last_row_id :: nat
  requests_made :: "Request list"

text \<open>
  \<open>json.dumps\<close> of \<open>{'event': event, 'model_version': model_version}\<close> and
  \<open>json.loads(payload_str)['event']\<close> are parameters of the model (\<open>dumps\<close>,
  \<open>loads\<close>). Reading a payload back gives the event, or \<open>JSONDecodeError\<close> for a text
  that is not JSON, or another exception (\<open>KeyError\<close>, \<open>TypeError\<close>) for JSON without
  an \<open>'event'\<close> entry.
\<close>

datatype loaded = Loaded Event | JSONDecodeError | OtherError

definition new_StatsSender :: StatsSender where
  "new_StatsSender =
     \<lparr> events_sent = 0, events_failed = 0, events_buffered = 0, events_replayed = 0,
       summaries_sent = 0, event_buffer = [], last_row_id = 0, requests_made = [] \<rparr>"

text \<open>
  \<open>_buffer_events\<close>: one row for each event, committed together; when the database
  fails nothing is stored and \<open>events_failed\<close> grows instead.
\<close>

fun new_rows ::
  "(Event \<Rightarrow> string \<Rightarrow> string) \<Rightarrow> string \<Rightarrow> string \<Rightarrow> nat \<Rightarrow> Event list \<Rightarrow> BufferRow list" where
  "new_rows dumps model_version ts n [] = []"
| "new_rows dumps model_version ts n (event # events) =
     \<lparr> row_id = n + 1, event_type = ''slot_event'', payload = dumps event model_version,
       row_timestamp = ts, retry_count = 0 \<rparr> # new_rows dumps model_version ts (n + 1) events"

definition buffer_events ::
  "(Event \<Rightarrow> string \<Rightarrow> string) \<Rightarrow> Env \<Rightarrow> StatsSender \<Rightarrow> Event list \<Rightarrow> string \<Rightarrow> StatsSender" where
  "buffer_events dumps env st events model_version =
     (if db_write_ok env then
        st\<lparr>event_buffer :=
             event_buffer st @ new_rows dumps model_version (now_iso env) (last_row_id st) events,
           last_row_id := last_row_id st + length events,
           events_buffered := events_buffered st + length events\<rparr>
      else st\<lparr>events_failed := events_failed st + length events\<rparr>)"

definition post :: "Request \<Rightarrow> StatsSender \<Rightarrow> StatsSender" where
  "post r st = st\<lparr>requests_made := requests_made st @ [r]\<rparr>"

definition send_slot_events ::
  "(Event \<Rightarrow> string \<Rightarrow> string) \<Rightarrow> Env \<Rightarrow> StatsSender \<Rightarrow> Event list \<Rightarrow> string \<Rightarrow>
   StatsSender \<times> bool" where
  "send_slot_events dumps env st events model_version =
     (if events = [] then (st, True)
      else
        (let st1 = post (PostEvents events model_version False) st in
         case http env of
           Response status_code \<Rightarrow>
             if status_code = 200
             then (st1\<lparr>events_sent := events_sent st1 + length events\<rparr>, True)
             else (buffer_events dumps env st1 events model_version, False)
         | RequestException \<Rightarrow> (buffer_events dumps env st1 events model_version, False)))"

definition send_summary :: "Env \<Rightarrow> StatsSender \<Rightarrow> Summary \<Rightarrow> StatsSender \<times> bool" where
  "send_summary env st summary =
     (let st1 = post (PostSummary summary) st in
      case http env of
        Response status_code \<Rightarrow>
          if status_code = 200
          then (st1\<lparr>summaries_sent := summaries_sent st1 + 1\<rparr>, True)
          else (st1, False)
      | RequestException \<Rightarrow> (st1, False))"

definition send_health ::
  "Env \<Rightarrow> StatsSender \<Rightarrow> (string \<times> string) list \<Rightarrow> StatsSender \<times> bool" where
  "send_health env st health_data =
     (let st1 = post (PostHealth health_data) st in
      case http env of
        Response status_code \<Rightarrow> if status_code = 200 then (st1, True) else (st1, False)
      | RequestException \<Rightarrow> (st1, False))"

definition send_processing_log ::
  "Env \<Rightarrow> StatsSender \<Rightarrow> int \<Rightarrow> real \<Rightarrow> int \<Rightarrow> int \<Rightarrow> StatsSender \<times> bool" where
  "send_processing_log env st frame_id inference_time_ms detections_count events_count =
     (let st1 = post (PostProcessingLog frame_id inference_time_ms detections_count events_count) st in
      case http env of
        Response status_code \<Rightarrow> (st1, status_code = 200)
      | RequestException \<Rightarrow> (st1, False))"

text \<open>
  \<open>SELECT id, payload FROM event_buffer ORDER BY id LIMIT ?\<close> with \<open>batch_size\<close>
  bound to the parameter. SQLite's integers have 64 bits: binding a Python int outside
  that range raises \<open>OverflowError\<close> and nothing is read. A negative limit is no
  limit in SQLite.
\<close>

definition sqlite_int :: "int \<Rightarrow> bool" where
  "sqlite_int n = (- (2 ^ 63) \<le> n \<and> n < 2 ^ 63)"

definition select_batch :: "int \<Rightarrow> BufferRow list \<Rightarrow> py_error + BufferRow list" where
  "select_batch batch_size rows =
     (if \<not> sqlite_int batch_size then Inl OverflowError
      else if batch_size < 0 then Inr (sort_key row_id rows)
      else Inr (take (nat batch_size) (sort_key row_id rows)))"

text \<open>
  The loop over the rows read: \<open>Some (events_to_send, ids_to_delete)\<close>, or \<open>None\<close>
  when a payload raises something other than \<open>JSONDecodeError\<close> (which the outer
  \<open>except\<close> of \<open>replay_buffered_events\<close> catches).
\<close>

fun decode_rows :: "(string \<Rightarrow> loaded) \<Rightarrow> BufferRow list \<Rightarrow> (Event list \<times> nat list) option" where
  "decode_rows loads [] = Some ([], [])"
| "decode_rows loads (r # rs) =
     (case loads (payload r) of
        Loaded e \<Rightarrow>
          (case decode_rows loads rs of
             None \<Rightarrow> None
           | Some (events, ids) \<Rightarrow> Some (e # events, row_id r # ids))
      | JSONDecodeError \<Rightarrow>
          (case decode_rows loads rs of
             None \<Rightarrow> None
           | Some (events, ids) \<Rightarrow> Some (events, row_id r # ids))
      | OtherError \<Rightarrow> None)"

definition delete_ids :: "nat list \<Rightarrow> BufferRow list \<Rightarrow> BufferRow list" where
  "delete_ids ids rows = filter (\<lambda>r. row_id r \<notin> set ids) rows"

text \<open>
  \<open>replay_buffered_events\<close>. Every exception inside it (the database cannot be
  opened or read, the limit does not bind, a payload raises something other than
  \<open>JSONDecodeError\<close>, the \<open>DELETE\<close> or its commit fails after the answer 200) is
  caught by the outer \<open>except\<close>: the call returns the \<open>replayed\<close> of that moment,
  which is 0, since \<open>replayed\<close> and the counter are set only after the commit.
\<close>

definition replay_buffered_events ::
  "(string \<Rightarrow> loaded) \<Rightarrow> Env \<Rightarrow> StatsSender \<Rightarrow> int \<Rightarrow> StatsSender \<times> nat" where
  "replay_buffered_events loads env st batch_size =
     (if \<not> db_read_ok env then (st, 0)
      else
        (case select_batch batch_size (event_buffer st) of
           Inl e \<Rightarrow> (st, 0)
         | Inr rows \<Rightarrow>
             if rows = [] then (st, 0)
             else
               (case decode_rows loads rows of
                  None \<Rightarrow> (st, 0)
                | Some (events_to_send, ids_to_delete) \<Rightarrow>
                    if events_to_send = [] then (st, 0)
                    else
                      (let st1 = post (PostEvents events_to_send ''replay'' True) st in
                       case http env of
                         Response status_code \<Rightarrow>
                           if status_code = 200 then
                             (if db_write_ok env then
                                (st1\<lparr>event_buffer :=
                                       delete_ids ids_to_delete (event_buffer st1),
                                     events_replayed :=
                                       events_replayed st1 + length events_to_send\<rparr>,
                                 length events_to_send)
                              else (st1, 0))
                           else (st1, 0)
                       | RequestException \<Rightarrow> (st1, 0)))))"

text \<open>\<open>get_stats\<close>: the live \<open>buffer_depth\<close> is \<open>SELECT COUNT(*)\<close>, 0 when that fails.\<close>

definition buffer_depth :: "Env \<Rightarrow> StatsSender \<Rightarrow> nat" where
  "buffer_depth env st = (if db_read_ok env then length (event_buffer st) else 0)"

text \<open>Fixtures for the sender: a loader that reads one text as an event, two rows.\<close>

definition demo_event :: Event where
  "demo_event =
     \<lparr> ev_slot_id = ''TEST_001'', ev_state = ''occupied'', ev_previous_state = ''unknown'',
       ev_confidence = 9/10, ev_ts_utc = ''t1'', ev_dwell_s = 0, ev_roi_version = ''v1'' \<rparr>"

definition demo_dumps :: "Event \<Rightarrow> string \<Rightarrow> string" where
  "demo_dumps e v = ''{event}''"

definition demo_loads :: "string \<Rightarrow> loaded" where
  "demo_loads s = (if s = ''{event}'' then Loaded demo_event else JSONDecodeError)"

definition corrupt_row :: BufferRow where
  "corrupt_row =
     \<lparr> row_id = 1, event_type = ''slot_event'', payload = ''{eve'', row_timestamp = ''t1'',
       retry_count = 0 \<rparr>"

definition good_row :: BufferRow where
  "good_row =
     \<lparr> row_id = 2, event_type = ''slot_event'', payload = ''{event}'', row_timestamp = ''t2'',
       retry_count = 0 \<rparr>"

definition offline :: Env where
  "offline = \<lparr> http = RequestException, db_read_ok = True, db_write_ok = True, now_iso = ''t3'' \<rparr>"

definition online :: Env where
  "online = \<lparr> http = Response 200, db_read_ok = True, db_write_ok = True, now_iso = ''t3'' \<rparr>"

text \<open>The server answers 200, but the buffer database cannot be written.\<close>

definition online_no_commit :: Env where
  "online_no_commit =
     \<lparr> http = Response 200, db_read_ok = True, db_write_ok = False, now_iso = ''t3'' \<rparr>"

text \<open>A third row, and a sender with the three rows in its buffer.\<close>

definition later_row :: BufferRow where
  "later_row =
     \<lparr> row_id = 3, event_type = ''slot_event'', payload = ''{event}'', row_timestamp = ''t3'',
       retry_count = 0 \<rparr>"

definition backlog :: StatsSender where
  "backlog = new_StatsSender\<lparr>event_buffer := [corrupt_row, good_row, later_row], last_row_id := 3\<rparr>"

section \<open>Properties of the occupancy processor\<close>

subsection \<open>One call of \<open>_update_slot_state\<close>\<close>

lemma hysteresis_cases:
  "hysteresis p cur ns c = ns \<or> hysteresis p cur ns c = cur"
  by (simp add: hysteresis_def)

lemma hysteresis_same: "hysteresis p S S c = S"
  by (simp add: hysteresis_def)

lemma hysteresis_unknown: "hysteresis p ''unknown'' ns c = ns"
  by (simp add: hysteresis_def)

lemma update_settled:
  "hysteresis p (current_state s) ns c = current_state s \<Longrightarrow>
   update_slot_state p s ns c ts now =
     Inr (s\<lparr>pending_state := None, pending_since := None, confidence := c\<rparr>, None)"
  by (simp add: update_slot_state_def)

lemma update_start:
  "hysteresis p (current_state s) ns c = S \<Longrightarrow> S \<noteq> current_state s \<Longrightarrow>
   pending_state s \<noteq> Some S \<Longrightarrow>
   update_slot_state p s ns c ts now =
     Inr (s\<lparr>pending_state := Some S, pending_since := Some now, confidence := c\<rparr>, None)"
  by (simp add: update_slot_state_def)

lemma update_wait:
  "hysteresis p (current_state s) ns c = S \<Longrightarrow> S \<noteq> current_state s \<Longrightarrow>
   pending_state s = Some S \<Longrightarrow> pending_since s = Some t0 \<Longrightarrow>
   now - t0 < debounce_seconds p \<Longrightarrow>
   update_slot_state p s ns c ts now = Inr (s, None)"
  by (simp add: update_slot_state_def)

lemma update_confirm:
  "hysteresis p (current_state s) ns c = S \<Longrightarrow> S \<noteq> current_state s \<Longrightarrow>
   pending_state s = Some S \<Longrightarrow> pending_since s = Some t0 \<Longrightarrow>
   debounce_seconds p \<le> now - t0 \<Longrightarrow>
   update_slot_state p s ns c ts now =
     Inr (s\<lparr>current_state := S, last_change := now, dwell_start := now,
            pending_state := None, pending_since := None\<rparr>,
          Some (confirm_event p s S c ts now))"
  by (simp add: update_slot_state_def confirm_event_def)

lemma update_total:
  "pending_state s \<noteq> None \<longrightarrow> pending_since s \<noteq> None \<Longrightarrow>
   \<exists>s' ev. update_slot_state p s ns c ts now = Inr (s', ev)"
  by (auto simp: update_slot_state_def Let_def split: option.splits)

lemma update_preserves:
  "update_slot_state p s ns c ts now = Inr (s', ev) \<Longrightarrow>
   slot_id s' = slot_id s \<and> polygon s' = polygon s \<and>
   (pending_state s' \<noteq> None \<longrightarrow> pending_since s' \<noteq> None)"
  by (auto simp: update_slot_state_def Let_def split: option.splits if_splits)

lemma update_event_id:
  "update_slot_state p s ns c ts now = Inr (s', Some e) \<Longrightarrow> ev_slot_id e = slot_id s"
  by (auto simp: update_slot_state_def Let_def split: option.splits if_splits)

lemma update_state_range:
  "update_slot_state p s ns c ts now = Inr (s', ev) \<Longrightarrow>
   current_state s' = current_state s \<or> current_state s' = ns"
  using hysteresis_cases[of p "current_state s" ns c]
  by (auto simp: update_slot_state_def Let_def split: option.splits if_splits)

subsection \<open>One slot over a sequence of observations\<close>

lemma steps_settled:
  "current_state s = S \<Longrightarrow> \<forall>ob\<in>set os. fst ob = S \<Longrightarrow>
   \<exists>s'. slot_steps p s os = Inr (s', replicate (length os) None) \<and> current_state s' = S"
proof (induction os arbitrary: s)
  case Nil
  then show ?case by simp
next
  case (Cons ob os)
  obtain ns c ts now where ob: "ob = (ns, c, ts, now)" by (cases ob) auto
  from Cons.prems ob have ns: "ns = S" by simp
  let ?s1 = "s\<lparr>pending_state := None, pending_since := None, confidence := c\<rparr>"
  have st: "update_slot_state p s ns c ts now = Inr (?s1, None)"
    using Cons.prems(1) ns by (simp add: update_settled hysteresis_same)
  have "current_state ?s1 = S" using Cons.prems(1) by simp
  from Cons.IH[OF this] Cons.prems(2)
  obtain s' where "slot_steps p ?s1 os = Inr (s', replicate (length os) None)"
    "current_state s' = S" by auto
  with st ob show ?case by simp
qed

lemma steps_pending:
  assumes "current_state s = c0" "S \<noteq> c0"
    "pending_state s = Some S" "pending_since s = Some t0"
    "\<forall>ob\<in>set os. hysteresis p c0 (fst ob) (fst (snd ob)) = S"
  shows "\<exists>s'. slot_steps p s os =
           Inr (s', replicate (length (takeWhile (early (debounce_seconds p) t0) os)) None @
                  (case dropWhile (early (debounce_seconds p) t0) os of
                     [] \<Rightarrow> []
                   | (ns, c, ts, now) # rest \<Rightarrow>
                       Some (confirm_event p s S c ts now) # replicate (length rest) None)) \<and>
              current_state s' =
                (if list_all (early (debounce_seconds p) t0) os then c0 else S)"
  using assms
proof (induction os)
  case Nil
  then show ?case by simp
next
  case (Cons ob os)
  obtain ns c ts now where ob: "ob = (ns, c, ts, now)" by (cases ob) auto
  from Cons.prems ob have h: "hysteresis p (current_state s) ns c = S" by simp
  show ?case
  proof (cases "early (debounce_seconds p) t0 ob")
    case True
    then have "now - t0 < debounce_seconds p" by (simp add: early_def ob)
    then have st: "update_slot_state p s ns c ts now = Inr (s, None)"
      using update_wait[OF h] Cons.prems by simp
    from Cons.IH Cons.prems
    obtain s' where "slot_steps p s os =
           Inr (s', replicate (length (takeWhile (early (debounce_seconds p) t0) os)) None @
                  (case dropWhile (early (debounce_seconds p) t0) os of
                     [] \<Rightarrow> []
                   | (ns, c, ts, now) # rest \<Rightarrow>
                       Some (confirm_event p s S c ts now) # replicate (length rest) None))"
       "current_state s' =
                (if list_all (early (debounce_seconds p) t0) os then c0 else S)" by auto
    with st ob True show ?thesis by simp
  next
    case False
    then have "debounce_seconds p \<le> now - t0" by (simp add: early_def ob)
    let ?s1 = "s\<lparr>current_state := S, last_change := now, dwell_start := now,
            pending_state := None, pending_since := None\<rparr>"
    have st: "update_slot_state p s ns c ts now = Inr (?s1, Some (confirm_event p s S c ts now))"
      using update_confirm[OF h _ _ _ \<open>debounce_seconds p \<le> now - t0\<close>] Cons.prems by simp
    have raw: "\<forall>ob\<in>set os. fst ob = S"
    proof
      fix ob' assume "ob' \<in> set os"
      with Cons.prems have "hysteresis p c0 (fst ob') (fst (snd ob')) = S" by simp
      with hysteresis_cases[of p c0 "fst ob'" "fst (snd ob')"] \<open>S \<noteq> c0\<close>
      show "fst ob' = S" by auto
    qed
    have "current_state ?s1 = S" by simp
    from steps_settled[OF this raw, of p]
    obtain s' where "slot_steps p ?s1 os = Inr (s', replicate (length os) None)"
      "current_state s' = S" by auto
    with st ob False show ?thesis by simp
  qed
qed

subsection \<open>From \<open>process_detections\<close> to the single slot\<close>

lemma check_detection_footprint:
  "check_detection ss d =
     fold (\<lambda>(k, poly) (occ, cf).
             if contains poly (center d)
             then (occ(k := True), cf(k := max (cf k) (det_confidence d)))
             else (occ, cf)) (footprint ss)"
proof -
  have "fold (\<lambda>(k, s) (occ, cf).
             if contains (polygon s) (center d)
             then (occ(k := True), cf(k := max (cf k) (det_confidence d)))
             else (occ, cf)) ss acc =
        fold (\<lambda>(k, poly) (occ, cf).
             if contains poly (center d)
             then (occ(k := True), cf(k := max (cf k) (det_confidence d)))
             else (occ, cf)) (footprint ss) acc" for acc
    by (induction ss arbitrary: acc) (simp_all add: footprint_def split: prod.splits)
  then show ?thesis by (simp add: check_detection_def fun_eq_iff)
qed

lemma check_slots_footprint:
  assumes "footprint ss = footprint ss'"
  shows "check_slots ss ds = check_slots ss' ds"
proof -
  have "check_detection ss = check_detection ss'"
    using assms by (simp add: fun_eq_iff check_detection_footprint)
  then show ?thesis by (simp add: check_slots_def)
qed

lemma observe_footprint:
  "footprint ss = footprint ss' \<Longrightarrow> observe ss k f = observe ss' k f"
  using check_slots_footprint[of ss ss']
  by (simp add: observe_def slot_occupancy_def slot_confidence_def split: prod.splits)

lemma hysteresis_slots [simp]: "hysteresis (p\<lparr>slots := ss\<rparr>) = hysteresis p"
  by (simp add: fun_eq_iff hysteresis_def)

lemma update_slot_state_slots [simp]:
  "update_slot_state (p\<lparr>slots := ss\<rparr>) = update_slot_state p"
  by (intro ext) (simp add: update_slot_state_def Let_def cong: option.case_cong if_cong)

lemma slot_steps_slots [simp]:
  "slot_steps (p\<lparr>slots := ss\<rparr>) s os = slot_steps p s os"
  by (induction p s os rule: slot_steps.induct) (auto split: sum.splits)

lemma update_slots_total:
  "list_all slot_ok ss \<Longrightarrow> \<exists>ss' evs. update_slots p occ cf ts now ss = Inr (ss', evs)"
proof (induction ss)
  case Nil
  then show ?case by simp
next
  case (Cons ks ss)
  obtain k s where ks: "ks = (k, s)" by (cases ks) auto
  from Cons.prems ks have "pending_state s \<noteq> None \<longrightarrow> pending_since s \<noteq> None"
    by (simp add: slot_ok_def)
  from update_total[OF this]
  obtain s' ev where
    "update_slot_state p s (observed_state occ k) (observed_confidence occ cf k) ts now = Inr (s', ev)"
    by blast
  moreover from Cons obtain ss' evs where "update_slots p occ cf ts now ss = Inr (ss', evs)"
    by auto
  ultimately show ?case using ks by simp
qed

lemma update_slots_preserves:
  "update_slots p occ cf ts now ss = Inr (ss', evs) \<Longrightarrow> list_all slot_ok ss \<Longrightarrow>
   map fst ss' = map fst ss \<and> footprint ss' = footprint ss \<and> list_all slot_ok ss'"
proof (induction ss arbitrary: ss' evs)
  case Nil
  then show ?case by (simp add: footprint_def)
next
  case (Cons ks ss)
  obtain k s where ks: "ks = (k, s)" by (cases ks) auto
  from Cons.prems ks obtain s' ev rest' evs' where
    u: "update_slot_state p s (observed_state occ k) (observed_confidence occ cf k) ts now = Inr (s', ev)"
    and r: "update_slots p occ cf ts now ss = Inr (rest', evs')"
    and e: "ss' = (k, s') # rest'"
    by (auto split: sum.splits prod.splits)
  from Cons.IH[OF r] Cons.prems(2)
  have "map fst rest' = map fst ss \<and> footprint rest' = footprint ss \<and> list_all slot_ok rest'"
    by simp
  moreover from update_preserves[OF u] Cons.prems(2) ks
  have "slot_ok (k, s') \<and> polygon s' = polygon s" by (simp add: slot_ok_def)
  ultimately show ?case using e ks by (simp add: footprint_def)
qed

lemma update_slots_events_ids:
  "update_slots p occ cf ts now ss = Inr (ss', evs) \<Longrightarrow> list_all slot_ok ss \<Longrightarrow>
   e \<in> set evs \<Longrightarrow> ev_slot_id e \<in> fst ` set ss"
proof (induction ss arbitrary: ss' evs)
  case Nil
  then show ?case by simp
next
  case (Cons ks ss)
  obtain k s where ks: "ks = (k, s)" by (cases ks) auto
  from Cons.prems ks obtain s' ev rest' evs' where
    u: "update_slot_state p s (observed_state occ k) (observed_confidence occ cf k) ts now = Inr (s', ev)"
    and r: "update_slots p occ cf ts now ss = Inr (rest', evs')"
    and e: "evs = (case ev of None \<Rightarrow> evs' | Some x \<Rightarrow> x # evs')"
    by (auto split: sum.splits prod.splits)
  show ?case
  proof (cases "e \<in> set evs'")
    case True
    from Cons.IH[OF r _ True] Cons.prems(2) show ?thesis by simp
  next
    case False
    with e Cons.prems(3) have "ev = Some e" by (cases ev) auto
    with update_event_id u have "ev_slot_id e = slot_id s" by blast
    with Cons.prems(2) ks show ?thesis by (simp add: slot_ok_def)
  qed
qed

lemma update_slots_project:
  assumes "update_slots p occ cf ts now ss = Inr (ss', evs)" "slots_ok ss" "(k, s) \<in> set ss"
  shows "\<exists>s' ev. update_slot_state p s (observed_state occ k) (observed_confidence occ cf k)
                   ts now = Inr (s', ev) \<and>
                 (k, s') \<in> set ss' \<and>
                 slot_events k evs = (case ev of None \<Rightarrow> [] | Some e \<Rightarrow> [e])"
  using assms
proof (induction ss arbitrary: ss' evs)
  case Nil
  then show ?case by simp
next
  case (Cons js ss)
  obtain j t where js: "js = (j, t)" by (cases js) auto
  from Cons.prems(1) js obtain t' ev rest' evs' where
    u: "update_slot_state p t (observed_state occ j) (observed_confidence occ cf j) ts now = Inr (t', ev)"
    and r: "update_slots p occ cf ts now ss = Inr (rest', evs')"
    and e: "evs = (case ev of None \<Rightarrow> evs' | Some x \<Rightarrow> x # evs')"
    and s': "ss' = (j, t') # rest'"
    by (auto split: sum.splits prod.splits)
  from Cons.prems(2) js have ok: "slots_ok ss" "j \<notin> fst ` set ss" "slot_id t = j"
    by (auto simp: slots_ok_def slot_ok_def)
  show ?case
  proof (cases "(k, s) = (j, t)")
    case True
    have "slot_events k evs' = []"
    proof -
      have "\<And>x. x \<in> set evs' \<Longrightarrow> ev_slot_id x \<in> fst ` set ss"
        using update_slots_events_ids[OF r] ok(1) by (simp add: slots_ok_def)
      then have "\<forall>x\<in>set evs'. ev_slot_id x \<noteq> k"
        using ok(2) True by blast
      then show ?thesis by (simp add: slot_events_def filter_empty_conv)
    qed
    moreover have "\<And>x. ev = Some x \<Longrightarrow> ev_slot_id x = k"
      using update_event_id u ok True by blast
    ultimately have "slot_events k evs = (case ev of None \<Rightarrow> [] | Some e \<Rightarrow> [e])"
      using e by (cases ev) (auto simp: slot_events_def)
    with u True s' show ?thesis by auto
  next
    case False
    with Cons.prems(3) js have in_ss: "(k, s) \<in> set ss" by auto
    from Cons.IH[OF r ok(1) in_ss] obtain s1 ev1 where
      a: "update_slot_state p s (observed_state occ k) (observed_confidence occ cf k) ts now = Inr (s1, ev1)"
      and b: "(k, s1) \<in> set rest'"
      and c: "slot_events k evs' = (case ev1 of None \<Rightarrow> [] | Some e \<Rightarrow> [e])" by blast
    from in_ss ok(2) have "k \<noteq> j" by force
    then have "\<And>x. ev = Some x \<Longrightarrow> ev_slot_id x \<noteq> k"
      using update_event_id u ok by blast
    then have "slot_events k evs = slot_events k evs'"
      using e by (cases ev) (auto simp: slot_events_def)
    with a b c s' show ?thesis by auto
  qed
qed

lemma process_detections_project:
  assumes "slots_ok (slots p)" "(k, s) \<in> set (slots p)"
  shows "\<exists>ss' evs s' ev.
           process_detections p ds ts now = Inr (p\<lparr>slots := ss'\<rparr>, evs) \<and>
           update_slot_state p s (fst (observe (slots p) k (ds, ts, now)))
              (fst (snd (observe (slots p) k (ds, ts, now)))) ts now = Inr (s', ev) \<and>
           (k, s') \<in> set ss' \<and>
           slot_events k evs = (case ev of None \<Rightarrow> [] | Some e \<Rightarrow> [e]) \<and>
           slots_ok ss' \<and> footprint ss' = footprint (slots p)"
proof -
  obtain occ cf where c: "check_slots (slots p) ds = (occ, cf)" by (cases "check_slots (slots p) ds") auto
  from assms(1) have ok: "list_all slot_ok (slots p)" by (simp add: slots_ok_def)
  from update_slots_total[OF ok] obtain ss' evs where
    u: "update_slots p occ cf ts now (slots p) = Inr (ss', evs)" by blast
  from update_slots_preserves[OF u ok] assms(1)
  have pr: "slots_ok ss'" "footprint ss' = footprint (slots p)" by (simp_all add: slots_ok_def)
  from update_slots_project[OF u assms] obtain s' ev where
    "update_slot_state p s (observed_state occ k) (observed_confidence occ cf k) ts now = Inr (s', ev)"
    "(k, s') \<in> set ss'" "slot_events k evs = (case ev of None \<Rightarrow> [] | Some e \<Rightarrow> [e])" by blast
  with c u pr show ?thesis
    by (intro exI[of _ ss'] exI[of _ evs] exI[of _ s'] exI[of _ ev])
       (simp add: process_detections_def observe_def slot_occupancy_def slot_confidence_def)
qed

lemma process_frames_project:
  assumes "slots_ok (slots p)" "(k, s) \<in> set (slots p)"
  shows "\<exists>ss' outs s' evs.
           process_frames p fs = Inr (p\<lparr>slots := ss'\<rparr>, outs) \<and>
           slot_steps p s (map (observe (slots p) k) fs) = Inr (s', evs) \<and>
           (k, s') \<in> set ss' \<and>
           map (slot_events k) outs = map event_list evs \<and>
           slots_ok ss' \<and> footprint ss' = footprint (slots p)"
  using assms
proof (induction fs arbitrary: p s)
  case Nil
  then have "p\<lparr>slots := slots p\<rparr> = p" by simp
  with Nil show ?case by (intro exI[of _ "slots p"] exI[of _ "[]"] exI[of _ s]) simp
next
  case (Cons f fs)
  obtain ds ts now where f: "f = (ds, ts, now)" by (cases f) auto
  from process_detections_project[OF Cons.prems, of ds ts now] obtain ss1 evs1 s1 ev1 where
    a: "process_detections p ds ts now = Inr (p\<lparr>slots := ss1\<rparr>, evs1)"
    and b: "update_slot_state p s (fst (observe (slots p) k (ds, ts, now)))
              (fst (snd (observe (slots p) k (ds, ts, now)))) ts now = Inr (s1, ev1)"
    and c: "(k, s1) \<in> set ss1" "slot_events k evs1 = event_list ev1"
           "slots_ok ss1" "footprint ss1 = footprint (slots p)"
    unfolding event_list_def by blast
  let ?p1 = "p\<lparr>slots := ss1\<rparr>"
  from c have "slots_ok (slots ?p1)" "(k, s1) \<in> set (slots ?p1)" by simp_all
  from Cons.IH[OF this] obtain ss' outs s' evs where
    d: "process_frames ?p1 fs = Inr (?p1\<lparr>slots := ss'\<rparr>, outs)"
    and e: "slot_steps ?p1 s1 (map (observe (slots ?p1) k) fs) = Inr (s', evs)"
    and g: "(k, s') \<in> set ss'" "map (slot_events k) outs = map event_list evs"
           "slots_ok ss'" "footprint ss' = footprint (slots ?p1)" by blast
  have obs: "observe ss1 k = observe (slots p) k"
    using observe_footprint[of ss1 "slots p" k] c(4) by (intro ext) simp
  have e': "slot_steps p s1 (map (observe (slots p) k) fs) = Inr (s', evs)"
    using e by (simp add: obs)
  have o4: "observe (slots p) k (ds, ts, now) =
        (fst (observe (slots p) k (ds, ts, now)), fst (snd (observe (slots p) k (ds, ts, now))), ts, now)"
    by (simp add: observe_def)
  have "slot_steps p s (map (observe (slots p) k) (f # fs)) = Inr (s', ev1 # evs)"
    using b e' f by (subst f, simp, subst o4, simp)
  moreover have "process_frames p (f # fs) = Inr (p\<lparr>slots := ss'\<rparr>, evs1 # outs)"
    using a d f by simp
  ultimately show ?case using g c
    by (intro exI[of _ ss'] exI[of _ "evs1 # outs"] exI[of _ s'] exI[of _ "ev1 # evs"]) simp
qed

lemma steps_gated_settled:
  "\<forall>ob\<in>set os. hysteresis p (current_state s) (fst ob) (fst (snd ob)) = current_state s \<Longrightarrow>
   \<exists>s'. slot_steps p s os = Inr (s', replicate (length os) None) \<and>
        current_state s' = current_state s"
proof (induction os arbitrary: s)
  case Nil
  then show ?case by simp
next
  case (Cons ob os)
  obtain ns c ts now where ob: "ob = (ns, c, ts, now)" by (cases ob) auto
  let ?s1 = "s\<lparr>pending_state := None, pending_since := None, confidence := c\<rparr>"
  have st: "update_slot_state p s ns c ts now = Inr (?s1, None)"
    using Cons.prems ob by (simp add: update_settled)
  have "\<forall>ob\<in>set os. hysteresis p (current_state ?s1) (fst ob) (fst (snd ob)) = current_state ?s1"
    using Cons.prems by simp
  from Cons.IH[OF this]
  obtain s' where "slot_steps p ?s1 os = Inr (s', replicate (length os) None)"
    "current_state s' = current_state s" by auto
  with st ob show ?case by simp
qed

lemma early_observe: "early D t0 (observe ss k f) = in_window D t0 f"
  by (cases f) (simp add: early_def observe_def in_window_def frame_time_def)

lemma takeWhile_observe:
  "takeWhile (early D t0) (map (observe ss k) fs) = map (observe ss k) (takeWhile (in_window D t0) fs)"
  by (induction fs) (simp_all add: early_observe)

lemma dropWhile_observe:
  "dropWhile (early D t0) (map (observe ss k) fs) = map (observe ss k) (dropWhile (in_window D t0) fs)"
  by (induction fs) (simp_all add: early_observe)

lemma confirm_event_cong:
  "slot_id s' = slot_id s \<Longrightarrow> current_state s' = current_state s \<Longrightarrow>
   dwell_start s' = dwell_start s \<Longrightarrow> confirm_event p s' = confirm_event p s"
  by (simp add: fun_eq_iff confirm_event_def)

lemma steps_debounce:
  assumes "S \<noteq> current_state s" "pending_state s \<noteq> Some S"
    "\<forall>ob\<in>set (ob0 # os). hysteresis p (current_state s) (fst ob) (fst (snd ob)) = S"
  shows "\<exists>s'. slot_steps p s (ob0 # os) =
           Inr (s', None #
                  replicate (length (takeWhile (early (debounce_seconds p) (snd (snd (snd ob0)))) os)) None @
                  (case dropWhile (early (debounce_seconds p) (snd (snd (snd ob0)))) os of
                     [] \<Rightarrow> []
                   | (ns, c, ts, now) # rest \<Rightarrow>
                       Some (confirm_event p s S c ts now) # replicate (length rest) None)) \<and>
              current_state s' =
                (if list_all (early (debounce_seconds p) (snd (snd (snd ob0)))) os
                 then current_state s else S)"
proof -
  obtain ns0 c0 ts0 t0 where ob0: "ob0 = (ns0, c0, ts0, t0)" by (cases ob0) auto
  let ?s1 = "s\<lparr>pending_state := Some S, pending_since := Some t0, confidence := c0\<rparr>"
  have st: "update_slot_state p s ns0 c0 ts0 t0 = Inr (?s1, None)"
    using update_start[of p s ns0 c0 S ts0 t0] assms ob0 by simp
  have ce: "confirm_event p ?s1 = confirm_event p s" by (rule confirm_event_cong) simp_all
  have "\<exists>s'. slot_steps p ?s1 os =
           Inr (s', replicate (length (takeWhile (early (debounce_seconds p) t0) os)) None @
                  (case dropWhile (early (debounce_seconds p) t0) os of
                     [] \<Rightarrow> []
                   | (ns, c, ts, now) # rest \<Rightarrow>
                       Some (confirm_event p ?s1 S c ts now) # replicate (length rest) None)) \<and>
              current_state s' =
                (if list_all (early (debounce_seconds p) t0) os then current_state s else S)"
    by (rule steps_pending[of "?s1" "current_state s" S t0 os p]) (use assms in simp_all)
  then obtain s' where r: "slot_steps p ?s1 os =
           Inr (s', replicate (length (takeWhile (early (debounce_seconds p) t0) os)) None @
                  (case dropWhile (early (debounce_seconds p) t0) os of
                     [] \<Rightarrow> []
                   | (ns, c, ts, now) # rest \<Rightarrow>
                       Some (confirm_event p s S c ts now) # replicate (length rest) None))"
     and c: "current_state s' =
                (if list_all (early (debounce_seconds p) t0) os then current_state s else S)"
    unfolding ce by blast
  have "slot_steps p s (ob0 # os) = Inr (s', None #
                  replicate (length (takeWhile (early (debounce_seconds p) t0) os)) None @
                  (case dropWhile (early (debounce_seconds p) t0) os of
                     [] \<Rightarrow> []
                   | (ns, c, ts, now) # rest \<Rightarrow>
                       Some (confirm_event p s S c ts now) # replicate (length rest) None))"
    unfolding ob0 by (simp add: st r)
  with c show ?thesis unfolding ob0 by simp
qed

lemma map_event_list_replicate: "map event_list (replicate n None) = replicate n []"
  by (simp add: event_list_def)

lemma frames_debounce:
  assumes ok: "slots_ok (slots p)" and mem: "(k, s) \<in> set (slots p)"
    and ne: "S \<noteq> current_state s" and pend: "pending_state s \<noteq> Some S"
    and pres: "\<forall>f\<in>set (f0 # fs). gated_state p (slots p) k (current_state s) f = S"
  shows "\<exists>p' outs s'. process_frames p (f0 # fs) = Inr (p', outs) \<and>
           (k, s') \<in> set (slots p') \<and>
           map (slot_events k) outs = debounce_trace p k s S f0 fs \<and>
           current_state s' =
             (if list_all (in_window (debounce_seconds p) (frame_time f0)) fs
              then current_state s else S)"
proof -
  let ?D = "debounce_seconds p" and ?t0 = "frame_time f0"
  let ?obs = "observe (slots p) k"
  from process_frames_project[OF ok mem, of "f0 # fs"] obtain ss' outs s' evs where
    pf: "process_frames p (f0 # fs) = Inr (p\<lparr>slots := ss'\<rparr>, outs)"
    and st: "slot_steps p s (?obs f0 # map ?obs fs) = Inr (s', evs)"
    and km: "(k, s') \<in> set ss'"
    and ev: "map (slot_events k) outs = map event_list evs" by auto
  have t0: "snd (snd (snd (?obs f0))) = ?t0"
    by (cases f0) (simp add: observe_def frame_time_def)
  have "\<forall>ob\<in>set (?obs f0 # map ?obs fs).
          hysteresis p (current_state s) (fst ob) (fst (snd ob)) = S"
    using pres by (simp add: gated_state_def)
  from steps_debounce[OF ne pend this] st
  have evs: "evs = None # replicate (length (takeWhile (early ?D ?t0) (map ?obs fs))) None @
                  (case dropWhile (early ?D ?t0) (map ?obs fs) of
                     [] \<Rightarrow> []
                   | (ns, c, ts, now) # rest \<Rightarrow>
                       Some (confirm_event p s S c ts now) # replicate (length rest) None)"
    and cs: "current_state s' = (if list_all (early ?D ?t0) (map ?obs fs) then current_state s else S)"
    by (auto simp: t0)
  have la: "list_all (early ?D ?t0) (map ?obs fs) = list_all (in_window ?D ?t0) fs"
    by (simp add: list_all_iff early_observe)
  have tr: "map event_list evs = debounce_trace p k s S f0 fs"
  proof (cases "dropWhile (in_window ?D ?t0) fs")
    case Nil
    show ?thesis
      unfolding evs debounce_trace_def dropWhile_observe takeWhile_observe Nil
      by (simp add: map_event_list_replicate event_list_def)
  next
    case (Cons f rest)
    obtain ds ts now where f: "f = (ds, ts, now)" by (cases f) auto
    have "?obs f = (fst (?obs f), fst (snd (?obs f)), ts, now)"
      by (simp add: f observe_def)
    then obtain ns c where o: "?obs f = (ns, c, ts, now)" and c: "c = fst (snd (?obs f))" by auto
    show ?thesis
      unfolding evs debounce_trace_def dropWhile_observe takeWhile_observe Cons
      by (simp add: f observe_def map_event_list_replicate event_list_def frame_event_def
            frame_time_def)
  qed
  show ?thesis
    using pf km ev tr cs la
    by (intro exI[of _ "p\<lparr>slots := ss'\<rparr>"] exI[of _ outs] exI[of _ s']) simp
qed

subsection \<open>The containment check\<close>

lemma check_detection_fst:
  "fst (check_detection ss d (occ, cf)) k =
     (occ k \<or> (\<exists>s. (k, s) \<in> set ss \<and> contains (polygon s) (center d)))"
  unfolding check_detection_def
  by (induction ss arbitrary: occ cf) (auto split: prod.splits)

lemma check_detection_snd:
  "snd (check_detection ss d (occ, cf)) k =
     (if \<exists>s. (k, s) \<in> set ss \<and> contains (polygon s) (center d)
      then max (cf k) (det_confidence d) else cf k)"
  unfolding check_detection_def
  by (induction ss arbitrary: occ cf) (auto split: prod.splits)

lemma fold_check_fst:
  "fst (fold (check_detection ss) ds acc) k =
     (fst acc k \<or> (\<exists>d\<in>set ds. \<exists>s. (k, s) \<in> set ss \<and> contains (polygon s) (center d)))"
proof (induction ds arbitrary: acc)
  case Nil
  then show ?case by simp
next
  case (Cons d ds)
  show ?case using check_detection_fst[of ss d "fst acc" "snd acc" k]
    by (auto simp: Cons.IH)
qed

lemma fold_check_snd:
  "snd (fold (check_detection ss) ds acc) k =
     Max (insert (snd acc k)
       {det_confidence d |d. d \<in> set ds \<and> (\<exists>s. (k, s) \<in> set ss \<and> contains (polygon s) (center d))})"
proof (induction ds arbitrary: acc)
  case Nil
  then show ?case by simp
next
  case (Cons d ds)
  define hit where "hit = (\<lambda>d::Detection. \<exists>s. (k, s) \<in> set ss \<and> contains (polygon s) (center d))"
  define A where "A = {det_confidence x |x. x \<in> set ds \<and> hit x}"
  define B where "B = {det_confidence x |x. x \<in> set (d # ds) \<and> hit x}"
  have fin: "finite A" by (simp add: A_def)
  have step: "snd (check_detection ss d acc) k =
        (if hit d then max (snd acc k) (det_confidence d) else snd acc k)"
    using check_detection_snd[of ss d "fst acc" "snd acc" k] by (simp add: hit_def)
  have IH: "snd (fold (check_detection ss) ds (check_detection ss d acc)) k =
      Max (insert (snd (check_detection ss d acc) k) A)"
    unfolding A_def hit_def by (rule Cons.IH)
  have goal: "snd (fold (check_detection ss) (d # ds) acc) k = Max (insert (snd acc k) B)"
  proof (cases "hit d")
    case True
    then have B: "B = insert (det_confidence d) A" by (auto simp: A_def B_def)
    have "Max (insert (max (snd acc k) (det_confidence d)) A) =
          Max (insert (snd acc k) (insert (det_confidence d) A))"
    proof (cases "A = {}")
      case True
      then show ?thesis by simp
    next
      case False
      then show ?thesis using fin by (simp add: max.assoc)
    qed
    then show ?thesis using True step IH by (simp add: B)
  next
    case False
    then have "B = A" by (auto simp: A_def B_def)
    then show ?thesis using False step IH by simp
  qed
  then show ?case unfolding B_def hit_def .
qed

lemma key_unique:
  "distinct (map fst ss) \<Longrightarrow> (k, s) \<in> set ss \<Longrightarrow> (k, s') \<in> set ss \<Longrightarrow> s' = s"
  using map_of_is_SomeI[of ss k s] map_of_is_SomeI[of ss k s'] by simp

lemma key_ex:
  assumes "distinct (map fst ss)" "(k, s) \<in> set ss"
  shows "(\<exists>s'. (k, s') \<in> set ss \<and> P s') = P s"
  using assms key_unique[OF assms] by blast

lemma slot_occupancy_iff:
  assumes "distinct (map fst ss)" "(k, s) \<in> set ss"
  shows "slot_occupancy ss ds k = (\<exists>d\<in>set ds. contains (polygon s) (center d))"
  unfolding slot_occupancy_def check_slots_def fold_check_fst
  by (simp add: key_ex[OF assms])

lemma slot_confidence_Max:
  assumes "distinct (map fst ss)" "(k, s) \<in> set ss"
  shows "slot_confidence ss ds k =
           Max (insert 0 {det_confidence d |d. d \<in> set ds \<and> contains (polygon s) (center d)})"
  unfolding slot_confidence_def check_slots_def fold_check_snd
  by (simp add: key_ex[OF assms])

lemma slot_confidence_free:
  assumes "\<not> slot_occupancy ss ds k"
  shows "slot_confidence ss ds k = 0"
proof -
  define A where "A = {det_confidence d |d. d \<in> set ds \<and> (\<exists>s. (k, s) \<in> set ss \<and> contains (polygon s) (center d))}"
  from assms have "A = {}"
    unfolding slot_occupancy_def check_slots_def fold_check_fst A_def by auto
  moreover have "slot_confidence ss ds k = Max (insert 0 A)"
    unfolding slot_confidence_def check_slots_def fold_check_snd A_def by simp
  ultimately show ?thesis by simp
qed

subsection \<open>Loading, and the invariants of the slot map\<close>

lemma list_all_update:
  "list_all P al \<Longrightarrow> P (k, v) \<Longrightarrow> list_all P (AList.update k v al)"
  by (induction al) auto

lemma load_loop_inv:
  "list_all P acc \<Longrightarrow> (\<And>sid poly t1 t2. P (sid, new_SlotState sid poly t1 t2)) \<Longrightarrow>
   distinct (map fst acc) \<Longrightarrow>
   list_all P (load_loop sx sy clock n ds acc) \<and> distinct (map fst (load_loop sx sy clock n ds acc))"
proof (induction sx sy clock n ds acc rule: load_loop.induct)
  case (3 sx sy clock n sid points ds acc)
  show ?case
  proof (cases "Polygon (map (\<lambda>p. (fst p * sx, snd p * sy)) points)")
    case (Inl e)
    with 3 show ?thesis by simp
  next
    case (Inr poly)
    have "list_all P (AList.update sid (new_SlotState sid poly (clock n) (clock (n + 1))) acc)"
      using 3 by (intro list_all_update) auto
    moreover have "distinct (map fst (AList.update sid (new_SlotState sid poly (clock n) (clock (n + 1))) acc))"
      using 3 by (simp add: distinct_update)
    ultimately show ?thesis using 3 Inr by simp
  qed
qed simp_all

lemma load_slots_inv:
  assumes "\<And>sid poly t1 t2. P (sid, new_SlotState sid poly t1 t2)"
  shows "list_all P (load_slots res clock config) \<and> distinct (map fst (load_slots res clock config))"
proof (cases config)
  case None
  then show ?thesis by (simp add: load_slots_def)
next
  case (Some c)
  show ?thesis
    using load_loop_inv[of P "[]", OF _ assms] Some
    by (simp add: load_slots_def Let_def)
qed

lemma init_slots_ok: "slots_ok (slots (init D e x res clock config))"
  using load_slots_inv[of slot_ok res clock config]
  by (simp add: slots_ok_def init_def slot_ok_def new_SlotState_def)

lemma init_known: "list_all known_state (slots (init D e x res clock config))"
  using load_slots_inv[of known_state res clock config]
  by (simp add: init_def known_state_def new_SlotState_def)

lemma observed_state_cases: "observed_state occ k = ''occupied'' \<or> observed_state occ k = ''free''"
  by (simp add: observed_state_def)

lemma update_slots_known:
  "update_slots p occ cf ts now ss = Inr (ss', evs) \<Longrightarrow> list_all known_state ss \<Longrightarrow>
   list_all known_state ss'"
proof (induction ss arbitrary: ss' evs)
  case Nil
  then show ?case by simp
next
  case (Cons ks ss)
  obtain k s where ks: "ks = (k, s)" by (cases ks) auto
  from Cons.prems ks obtain s' ev rest' evs' where
    u: "update_slot_state p s (observed_state occ k) (observed_confidence occ cf k) ts now = Inr (s', ev)"
    and r: "update_slots p occ cf ts now ss = Inr (rest', evs')"
    and e: "ss' = (k, s') # rest'"
    by (auto split: sum.splits prod.splits)
  from Cons.IH[OF r] Cons.prems(2) have "list_all known_state rest'" by simp
  moreover from update_state_range[OF u] observed_state_cases[of occ k] Cons.prems(2) ks
  have "known_state (k, s')" by (auto simp: known_state_def)
  ultimately show ?case using e by simp
qed

lemma process_detections_known:
  "process_detections p ds ts now = Inr (p', evs) \<Longrightarrow> list_all known_state (slots p) \<Longrightarrow>
   list_all known_state (slots p')"
  using update_slots_known
  by (auto simp: process_detections_def split: prod.splits sum.splits)

lemma process_frames_known:
  "process_frames p fs = Inr (p', outs) \<Longrightarrow> list_all known_state (slots p) \<Longrightarrow>
   list_all known_state (slots p')"
proof (induction fs arbitrary: p outs)
  case Nil
  then show ?case by simp
next
  case (Cons f fs)
  obtain ds ts now where f: "f = (ds, ts, now)" by (cases f) auto
  from Cons.prems f obtain p1 evs outs' where
    a: "process_detections p ds ts now = Inr (p1, evs)"
    and b: "process_frames p1 fs = Inr (p', outs')"
    by (auto split: sum.splits prod.splits)
  from process_detections_known[OF a Cons.prems(2)] Cons.IH[OF b] show ?case by simp
qed

lemma process_frames_total:
  "slots_ok (slots p) \<Longrightarrow> \<exists>p' outs. process_frames p fs = Inr (p', outs)"
proof (induction fs arbitrary: p)
  case Nil
  then show ?case by simp
next
  case (Cons f fs)
  obtain ds ts now where f: "f = (ds, ts, now)" by (cases f) auto
  from Cons.prems have ok: "list_all slot_ok (slots p)" by (simp add: slots_ok_def)
  obtain occ cf where c: "check_slots (slots p) ds = (occ, cf)"
    by (cases "check_slots (slots p) ds") auto
  from update_slots_total[OF ok] obtain ss' evs where
    u: "update_slots p occ cf ts now (slots p) = Inr (ss', evs)" by blast
  from update_slots_preserves[OF u ok] Cons.prems
  have "slots_ok (slots (p\<lparr>slots := ss'\<rparr>))" by (simp add: slots_ok_def)
  from Cons.IH[OF this] obtain p' outs where
    "process_frames (p\<lparr>slots := ss'\<rparr>) fs = Inr (p', outs)" by blast
  with c u f show ?case by (simp add: process_detections_def)
qed

text \<open>
  The condition \<open>slots_ok\<close> of the statements holds of a freshly loaded processor
  (\<open>init_slots_ok\<close>) and is kept by every call.
\<close>

lemma process_detections_slots_ok:
  assumes "process_detections p ds ts now = Inr (p', evs)" and "slots_ok (slots p)"
  shows "slots_ok (slots p')"
proof -
  obtain occ cf where c: "check_slots (slots p) ds = (occ, cf)"
    by (cases "check_slots (slots p) ds") auto
  from assms(2) have ok: "list_all slot_ok (slots p)" by (simp add: slots_ok_def)
  from assms(1) c obtain ss' where
    u: "update_slots p occ cf ts now (slots p) = Inr (ss', evs)" and p': "p' = p\<lparr>slots := ss'\<rparr>"
    by (auto simp: process_detections_def split: sum.splits)
  from update_slots_preserves[OF u ok] assms(2) p' show ?thesis
    by (simp add: slots_ok_def)
qed

lemma process_frames_slots_ok:
  "process_frames p fs = Inr (p', outs) \<Longrightarrow> slots_ok (slots p) \<Longrightarrow> slots_ok (slots p')"
proof (induction fs arbitrary: p outs)
  case Nil
  then show ?case by simp
next
  case (Cons f fs)
  obtain ds ts now where f: "f = (ds, ts, now)" by (cases f) auto
  from Cons.prems f obtain p1 evs outs' where
    a: "process_detections p ds ts now = Inr (p1, evs)"
    and b: "process_frames p1 fs = Inr (p', outs')"
    by (auto split: sum.splits prod.splits)
  from process_detections_slots_ok[OF a Cons.prems(2)] Cons.IH[OF b] show ?case by simp
qed

lemma count_three:
  "list_all known_state ss \<Longrightarrow>
   length (filter (\<lambda>s. current_state s = ''free'') (map snd ss)) +
   length (filter (\<lambda>s. current_state s = ''occupied'') (map snd ss)) +
   length (filter (\<lambda>s. current_state s = ''unknown'') (map snd ss)) = length ss"
  by (induction ss) (auto simp: known_state_def)

text \<open>
  C9 (count invariant). Starting from a freshly loaded slot map (any configuration file,
  any thresholds), every sequence of \<open>process_detections\<close> calls returns, and the
  summary of the processor it leaves satisfies
  \<open>free_count + occupied_count + unknown_count = total_slots\<close>: every
  \<open>current_state\<close> is one of the three names, and each slot is counted once.
\<close>

theorem summary_counts_add_up:
  "\<exists>p' outs. process_frames (init D e x res clock config) fs = Inr (p', outs) \<and>
     free_count (get_summary p' t) + occupied_count (get_summary p' t) +
     unknown_count (get_summary p' t) = total_slots (get_summary p' t)"
proof -
  from process_frames_total[OF init_slots_ok] obtain p' outs where
    pf: "process_frames (init D e x res clock config) fs = Inr (p', outs)" by blast
  from process_frames_known[OF pf init_known] have "list_all known_state (slots p')" .
  from count_three[OF this] pf show ?thesis by (simp add: get_summary_def)
qed

theorem summary_counts_add_up_witness:
  "\<exists>p' outs.
     process_frames test_processor
       [([test_detection], ''t0'', 0), ([test_detection], ''t1'', 1/5)] = Inr (p', outs) \<and>
     free_count (get_summary p' ''t2'') + occupied_count (get_summary p' ''t2'') +
     unknown_count (get_summary p' ''t2'') = total_slots (get_summary p' ''t2'')"
  unfolding test_processor_def by (rule summary_counts_add_up)

lemma test_slots:
  "slots test_processor =
     [(''TEST_001'', new_SlotState ''TEST_001'' [(100, 100), (200, 100), (200, 200), (100, 200)] 0 0),
      (''TEST_002'', new_SlotState ''TEST_002'' [(300, 100), (400, 100), (400, 200), (300, 200)] 0 0)]"
  by (simp add: test_processor_def init_def load_slots_def test_config_def Polygon_def)

text \<open>
  C1 (debounce). Let the slot \<open>k\<close> be in a state \<open>s\<close> and let \<open>S\<close> differ from its
  \<open>current_state\<close>, with no window for \<open>S\<close> open yet. Let the calls \<open>f0\<close>, then
  \<open>fs\<close>, all present \<open>S\<close> for the slot after the hysteresis gate. The disagreement
  begins with \<open>f0\<close>, at its clock reading. Then all calls return, and the events for the
  slot are, call by call: none at \<open>f0\<close>; none at the following calls as long as their
  clock readings are earlier than \<open>debounce_seconds\<close> after the beginning; the one
  event of the transition at the first following call that is at least
  \<open>debounce_seconds\<close> after it; none at any later call. So no call earlier than
  \<open>debounce_seconds\<close> after the beginning has an event, and there is exactly one event,
  however many calls fall inside the window.
\<close>

theorem debounce_exactly_one_event:
  assumes "slots_ok (slots p)" and "(k, s) \<in> set (slots p)"
    and "S \<noteq> current_state s" and "pending_state s \<noteq> Some S"
    and "\<forall>f\<in>set (f0 # fs). gated_state p (slots p) k (current_state s) f = S"
  shows "\<exists>p' outs. process_frames p (f0 # fs) = Inr (p', outs) \<and>
           map (slot_events k) outs =
             [] # replicate (length (takeWhile (in_window (debounce_seconds p) (frame_time f0)) fs)) [] @
               (case dropWhile (in_window (debounce_seconds p) (frame_time f0)) fs of
                  [] \<Rightarrow> []
                | f # rest \<Rightarrow> [frame_event p k s S f] # replicate (length rest) [])"
proof -
  from frames_debounce[OF assms] obtain p' outs where
    "process_frames p (f0 # fs) = Inr (p', outs)"
    "map (slot_events k) outs = debounce_trace p k s S f0 fs" by blast
  then show ?thesis unfolding debounce_trace_def by (intro exI[of _ p'] exI[of _ outs]) simp
qed

lemma test_detection_in_001:
  "contains [(100, 100), (200, 100), (200, 200), (100, 200)] (center test_detection)"
  by (simp add: test_detection_def contains_def locate_def ring_edges_def on_segment_def
        ray_crosses_def orientation_def)

lemma test_detection_not_in_002:
  "\<not> contains [(300, 100), (400, 100), (400, 200), (300, 200)] (center test_detection)"
  by (simp add: test_detection_def contains_def locate_def ring_edges_def on_segment_def
        ray_crosses_def orientation_def)

lemma test_observe_001:
  "observe (slots test_processor) ''TEST_001'' ([test_detection], ts, now) =
     (''occupied'', 9/10, ts, now)"
  using test_detection_in_001
  by (simp add: observe_def test_slots slot_occupancy_def slot_confidence_def check_slots_def
        check_detection_def new_SlotState_def observed_state_def observed_confidence_def
        test_detection_def)

lemma test_slots_ok: "slots_ok (slots test_processor)"
  unfolding test_processor_def by (rule init_slots_ok)

theorem debounce_exactly_one_event_witness:
  "\<exists>p' outs.
     process_frames test_processor
       [([test_detection], ''t0'', 0), ([test_detection], ''t1'', 1/20),
        ([test_detection], ''t2'', 2/25), ([test_detection], ''t3'', 1/5),
        ([test_detection], ''t4'', 3/10)] = Inr (p', outs) \<and>
     map (slot_events ''TEST_001'') outs =
       [[], [], [],
        [\<lparr>ev_slot_id = ''TEST_001'', ev_state = ''occupied'', ev_previous_state = ''unknown'',
           ev_confidence = 9/10, ev_ts_utc = ''t3'', ev_dwell_s = 0, ev_roi_version = ''v1''\<rparr>],
        []]"
proof -
  let ?s = "new_SlotState ''TEST_001'' [(100, 100), (200, 100), (200, 200), (100, 200)] 0 0"
  have mem: "(''TEST_001'', ?s) \<in> set (slots test_processor)" by (simp add: test_slots)
  have ne: "''occupied'' \<noteq> current_state ?s" by (simp add: new_SlotState_def)
  have pend: "pending_state ?s \<noteq> Some ''occupied''" by (simp add: new_SlotState_def)
  have cur: "current_state ?s = ''unknown''" by (simp add: new_SlotState_def)
  have D: "debounce_seconds test_processor = 1/10" "roi_version test_processor = ''v1''"
    by (simp_all add: test_processor_def init_def)
  have pres: "\<forall>f\<in>set [([test_detection], ''t0'', 0), ([test_detection], ''t1'', 1/20),
        ([test_detection], ''t2'', 2/25), ([test_detection], ''t3'', 1/5),
        ([test_detection], ''t4'', 3/10)].
        gated_state test_processor (slots test_processor) ''TEST_001'' (current_state ?s) f = ''occupied''"
    by (simp add: gated_state_def test_observe_001 cur hysteresis_def)
  show ?thesis
    using debounce_exactly_one_event[OF test_slots_ok mem ne pend pres]
    by (simp add: D in_window_def frame_time_def frame_event_def test_observe_001
          confirm_event_def py_int_def new_SlotState_def)
qed

lemma observe_state_cases:
  "fst (observe ss k f) = ''occupied'' \<or> fst (observe ss k f) = ''free''"
  by (cases f) (simp add: observe_def observed_state_def)

text \<open>
  C5 (initial-state bypass). Let the slot \<open>k\<close> have \<open>current_state\<close> unknown, and let
  the calls \<open>f0\<close>, then \<open>fs\<close>, all observe the state \<open>S\<close> for it (occupied or free,
  with any confidences), no window for \<open>S\<close> being open before. Whatever
  \<open>enter_threshold\<close> and \<open>exit_threshold\<close> are, all calls return and the events for
  the slot are: none until the first call after \<open>f0\<close> whose clock reading is at least
  \<open>debounce_seconds\<close> after that of \<open>f0\<close>; at that call exactly one event, with
  \<open>previous_state\<close> unknown and \<open>state\<close> \<open>S\<close>; none afterwards. The slot has adopted
  \<open>S\<close> as soon as such a call has been made.
\<close>

theorem unknown_slot_first_event:
  assumes "slots_ok (slots p)" and "(k, s) \<in> set (slots p)"
    and "current_state s = ''unknown''" and "pending_state s \<noteq> Some S"
    and "\<forall>f\<in>set (f0 # fs). fst (observe (slots p) k f) = S"
  shows "\<exists>p' outs s'. process_frames p (f0 # fs) = Inr (p', outs) \<and>
           (k, s') \<in> set (slots p') \<and>
           map (slot_events k) outs =
             [] # replicate (length (takeWhile (in_window (debounce_seconds p) (frame_time f0)) fs)) [] @
               (case dropWhile (in_window (debounce_seconds p) (frame_time f0)) fs of
                  [] \<Rightarrow> []
                | f # rest \<Rightarrow>
                    [\<lparr>ev_slot_id = k, ev_state = S, ev_previous_state = ''unknown'',
                      ev_confidence = fst (snd (observe (slots p) k f)),
                      ev_ts_utc = fst (snd f),
                      ev_dwell_s = py_int (frame_time f - dwell_start s),
                      ev_roi_version = roi_version p\<rparr>] # replicate (length rest) []) \<and>
           current_state s' =
             (if list_all (in_window (debounce_seconds p) (frame_time f0)) fs
              then ''unknown'' else S)"
proof -
  from assms(5) have "fst (observe (slots p) k f0) = S" by simp
  with observe_state_cases[of "slots p" k f0] assms(3)
  have ne: "S \<noteq> current_state s" by auto
  have pres: "\<forall>f\<in>set (f0 # fs). gated_state p (slots p) k (current_state s) f = S"
    using assms(5) by (simp add: gated_state_def assms(3) hysteresis_unknown)
  from assms(1,2) have sid: "slot_id s = k"
    by (auto simp: slots_ok_def slot_ok_def list_all_iff)
  from frames_debounce[OF assms(1,2) ne assms(4) pres] obtain p' outs s' where
    "process_frames p (f0 # fs) = Inr (p', outs)" "(k, s') \<in> set (slots p')"
    "map (slot_events k) outs = debounce_trace p k s S f0 fs"
    "current_state s' =
             (if list_all (in_window (debounce_seconds p) (frame_time f0)) fs
              then current_state s else S)" by blast
  then show ?thesis
    unfolding debounce_trace_def frame_event_def confirm_event_def sid assms(3)
    by (intro exI[of _ p'] exI[of _ outs] exI[of _ s']) simp
qed

theorem unknown_slot_first_event_witness:
  "\<exists>p' outs s'.
     process_frames (test_processor\<lparr>enter_threshold := 2, exit_threshold := 2\<rparr>)
       [([], ''t0'', 0), ([], ''t1'', 1/20), ([], ''t2'', 1/5), ([], ''t3'', 3/10)] =
       Inr (p', outs) \<and>
     (''TEST_002'', s') \<in> set (slots p') \<and>
     map (slot_events ''TEST_002'') outs =
       [[], [],
        [\<lparr>ev_slot_id = ''TEST_002'', ev_state = ''free'', ev_previous_state = ''unknown'',
           ev_confidence = 1, ev_ts_utc = ''t2'', ev_dwell_s = 0, ev_roi_version = ''v1''\<rparr>],
        []] \<and>
     current_state s' = ''free''"
proof -
  let ?p = "test_processor\<lparr>enter_threshold := 2, exit_threshold := 2\<rparr>"
  let ?s = "new_SlotState ''TEST_002'' [(300, 100), (400, 100), (400, 200), (300, 200)] 0 0"
  have ok: "slots_ok (slots ?p)" using test_slots_ok by simp
  have mem: "(''TEST_002'', ?s) \<in> set (slots ?p)" by (simp add: test_slots)
  have cur: "current_state ?s = ''unknown''" by (simp add: new_SlotState_def)
  have pend: "pending_state ?s \<noteq> Some ''free''" by (simp add: new_SlotState_def)
  have ob: "observe (slots test_processor) ''TEST_002'' ([], ts, now) = (''free'', 1, ts, now)" for ts now
    by (simp add: observe_def slot_occupancy_def slot_confidence_def check_slots_def
          observed_state_def observed_confidence_def)
  have pres: "\<forall>f\<in>set [([], ''t0'', 0), ([], ''t1'', 1/20), ([], ''t2'', 1/5), ([], ''t3'', 3/10)].
        fst (observe (slots ?p) ''TEST_002'' f) = ''free''"
    by (simp add: ob)
  have D: "debounce_seconds ?p = 1/10" "roi_version ?p = ''v1''"
    by (simp_all add: test_processor_def init_def)
  show ?thesis
    using unknown_slot_first_event[OF ok mem cur pend pres]
    by (simp add: D in_window_def frame_time_def ob py_int_def new_SlotState_def)
qed

lemma gated_free_stays:
  assumes "distinct (map fst ss)" and "(k, s) \<in> set ss"
    and low: "\<forall>d\<in>set ds. contains (polygon s) (center d) \<longrightarrow>
                 0 \<le> det_confidence d \<and> det_confidence d < enter_threshold p"
  shows "gated_state p ss k ''free'' (ds, ts, now) = ''free''"
proof (cases "slot_occupancy ss ds k")
  case True
  define A where "A = {det_confidence d |d. d \<in> set ds \<and> contains (polygon s) (center d)}"
  from True obtain d where d: "d \<in> set ds" "contains (polygon s) (center d)"
    unfolding slot_occupancy_iff[OF assms(1,2)] by blast
  with low have "0 < enter_threshold p" by force
  moreover have "\<forall>a\<in>A. a < enter_threshold p" using low by (auto simp: A_def)
  moreover have "finite (insert 0 A)" by (simp add: A_def)
  ultimately have "Max (insert 0 A) < enter_threshold p" by (subst Max_less_iff) auto
  then have "slot_confidence ss ds k < enter_threshold p"
    unfolding slot_confidence_Max[OF assms(1,2)] A_def .
  with True show ?thesis
    by (simp add: gated_state_def observe_def observed_state_def observed_confidence_def
          hysteresis_def)
next
  case False
  then show ?thesis
    by (simp add: gated_state_def observe_def observed_state_def hysteresis_def)
qed

text \<open>
  C2 (hysteresis). Let the slot \<open>k\<close> have \<open>current_state\<close> free, and let every
  detection of every call whose center the slot's polygon contains have a confidence
  (in the range from 0 on, as detections have) strictly below \<open>enter_threshold\<close>.
  Then every such sequence of calls returns, no call has an event for the slot (so none
  with state occupied), and the slot is free after it: the observation under the
  threshold is taken as free.
\<close>

theorem free_slot_stays_free:
  assumes "slots_ok (slots p)" and "(k, s) \<in> set (slots p)"
    and "current_state s = ''free''"
    and "\<forall>f\<in>set fs. \<forall>d\<in>set (fst f). contains (polygon s) (center d) \<longrightarrow>
            0 \<le> det_confidence d \<and> det_confidence d < enter_threshold p"
  shows "\<exists>p' outs s'. process_frames p fs = Inr (p', outs) \<and>
           (k, s') \<in> set (slots p') \<and> current_state s' = ''free'' \<and>
           (\<forall>events\<in>set outs. slot_events k events = [])"
proof -
  from assms(1) have dist: "distinct (map fst (slots p))" by (simp add: slots_ok_def)
  from process_frames_project[OF assms(1,2), of fs] obtain ss' outs s' evs where
    pf: "process_frames p fs = Inr (p\<lparr>slots := ss'\<rparr>, outs)"
    and st: "slot_steps p s (map (observe (slots p) k) fs) = Inr (s', evs)"
    and km: "(k, s') \<in> set ss'"
    and ev: "map (slot_events k) outs = map event_list evs" by blast
  have "\<forall>ob\<in>set (map (observe (slots p) k) fs).
          hysteresis p (current_state s) (fst ob) (fst (snd ob)) = current_state s"
  proof
    fix ob assume "ob \<in> set (map (observe (slots p) k) fs)"
    then obtain f where f: "f \<in> set fs" "ob = observe (slots p) k f" by auto
    obtain ds ts now where fe: "f = (ds, ts, now)" by (cases f) auto
    from assms(4) f(1) fe
    have "\<forall>d\<in>set ds. contains (polygon s) (center d) \<longrightarrow>
                 0 \<le> det_confidence d \<and> det_confidence d < enter_threshold p" by force
    from gated_free_stays[OF dist assms(2) this, of ts now]
    show "hysteresis p (current_state s) (fst ob) (fst (snd ob)) = current_state s"
      by (simp add: gated_state_def f(2) fe assms(3))
  qed
  from steps_gated_settled[OF this] st
  have evs: "evs = replicate (length fs) None" and cs: "current_state s' = ''free''"
    by (auto simp: assms(3))
  have "map (slot_events k) outs = replicate (length fs) []"
    by (simp add: ev evs event_list_def)
  then have "\<forall>events\<in>set outs. slot_events k events = []"
    by (metis in_set_replicate list.set_map imageI)
  with pf km cs show ?thesis
    by (intro exI[of _ "p\<lparr>slots := ss'\<rparr>"] exI[of _ outs] exI[of _ s']) simp
qed

theorem free_slot_stays_free_witness:
  "\<exists>p' outs s'.
     process_frames
       (test_processor\<lparr>enter_threshold := 3/5,
          slots := [(''TEST_001'',
                     (new_SlotState ''TEST_001'' [(100, 100), (200, 100), (200, 200), (100, 200)] 0 0)
                       \<lparr>current_state := ''free''\<rparr>)]\<rparr>)
       [([\<lparr>center = (150, 150), det_confidence = 1/2\<rparr>], ''t0'', 0),
        ([\<lparr>center = (150, 150), det_confidence = 1/2\<rparr>], ''t1'', 10),
        ([\<lparr>center = (150, 150), det_confidence = 1/2\<rparr>], ''t2'', 1000)] = Inr (p', outs) \<and>
     (''TEST_001'', s') \<in> set (slots p') \<and> current_state s' = ''free'' \<and>
     (\<forall>events\<in>set outs. slot_events ''TEST_001'' events = [])"
proof -
  let ?s = "(new_SlotState ''TEST_001'' [(100, 100), (200, 100), (200, 200), (100, 200)] 0 0)
              \<lparr>current_state := ''free''\<rparr>"
  let ?p = "test_processor\<lparr>enter_threshold := 3/5, slots := [(''TEST_001'', ?s)]\<rparr>"
  have ok: "slots_ok (slots ?p)"
    by (simp add: slots_ok_def slot_ok_def new_SlotState_def)
  have mem: "(''TEST_001'', ?s) \<in> set (slots ?p)" by simp
  have cur: "current_state ?s = ''free''" by simp
  have low: "\<forall>f\<in>set [([\<lparr>center = (150, 150), det_confidence = 1/2\<rparr>], ''t0'', 0),
        ([\<lparr>center = (150, 150), det_confidence = 1/2\<rparr>], ''t1'', 10),
        ([\<lparr>center = (150, 150), det_confidence = 1/2\<rparr>], ''t2'', 1000::real)].
       \<forall>d\<in>set (fst f). contains (polygon ?s) (center d) \<longrightarrow>
            0 \<le> det_confidence d \<and> det_confidence d < enter_threshold ?p"
    by simp
  show ?thesis
    using free_slot_stays_free[OF ok mem cur low] by simp
qed

text \<open>
  C3 (containment), as the code has it. In a \<open>process_detections\<close> call a slot is
  observed occupied exactly when the center of some detection is located in the
  interior of the slot's polygon (\<open>Polygon.contains\<close>: a center on the boundary is
  not contained). The raw confidence of the slot is the greatest of 0.0 and the
  confidences of the detections it contains: for an occupied slot and confidences from
  0 on, the maximum confidence among the detections contained.
\<close>

theorem occupied_iff_center_in_interior:
  assumes "distinct (map fst (slots p))" and "(k, s) \<in> set (slots p)"
  shows "(observed_state (slot_occupancy (slots p) ds) k = ''occupied'') =
           (\<exists>d\<in>set ds. locate (polygon s) (center d) = INTERIOR) \<and>
         slot_confidence (slots p) ds k =
           Max (insert 0 {det_confidence d |d.
                  d \<in> set ds \<and> locate (polygon s) (center d) = INTERIOR}) \<and>
         ((\<forall>d\<in>set ds. 0 \<le> det_confidence d) \<longrightarrow>
          slot_occupancy (slots p) ds k \<longrightarrow>
          observed_confidence (slot_occupancy (slots p) ds) (slot_confidence (slots p) ds) k =
            Max {det_confidence d |d. d \<in> set ds \<and> locate (polygon s) (center d) = INTERIOR})"
proof -
  define A where "A = {det_confidence d |d. d \<in> set ds \<and> contains (polygon s) (center d)}"
  have occ: "slot_occupancy (slots p) ds k = (\<exists>d\<in>set ds. contains (polygon s) (center d))"
    by (rule slot_occupancy_iff[OF assms])
  have cf: "slot_confidence (slots p) ds k = Max (insert 0 A)"
    unfolding A_def by (rule slot_confidence_Max[OF assms])
  have fin: "finite A" by (simp add: A_def)
  have "Max (insert 0 A) = Max A"
    if nn: "\<forall>d\<in>set ds. 0 \<le> det_confidence d" and o: "slot_occupancy (slots p) ds k"
  proof -
    from o occ have ne: "A \<noteq> {}" by (auto simp: A_def)
    from nn have "\<forall>a\<in>A. 0 \<le> a" by (auto simp: A_def)
    with ne obtain a where "a \<in> A" "0 \<le> a" by blast
    then have "0 \<le> Max A" using fin by (meson Max_ge order_trans)
    then show ?thesis using fin ne by (simp add: max_def)
  qed
  then show ?thesis
    using occ cf unfolding A_def contains_def
    by (simp add: observed_state_def observed_confidence_def)
qed

theorem occupied_iff_center_in_interior_witness:
  "(observed_state (slot_occupancy (slots test_processor)
        [test_detection, \<lparr>center = (160, 120), det_confidence = 7/10\<rparr>]) ''TEST_001'' = ''occupied'') \<and>
   locate [(100, 100), (200, 100), (200, 200), (100, 200)] (center test_detection) = INTERIOR \<and>
   observed_confidence
     (slot_occupancy (slots test_processor)
        [test_detection, \<lparr>center = (160, 120), det_confidence = 7/10\<rparr>])
     (slot_confidence (slots test_processor)
        [test_detection, \<lparr>center = (160, 120), det_confidence = 7/10\<rparr>]) ''TEST_001'' = 9/10"
proof -
  let ?poly = "[(100, 100), (200, 100), (200, 200), (100, 200)] :: point list"
  let ?s = "new_SlotState ''TEST_001'' ?poly 0 0"
  let ?d2 = "\<lparr>center = (160, 120), det_confidence = 7/10\<rparr>"
  have dist: "distinct (map fst (slots test_processor))" by (simp add: test_slots)
  have mem: "(''TEST_001'', ?s) \<in> set (slots test_processor)" by (simp add: test_slots)
  have l1: "locate ?poly (center test_detection) = INTERIOR"
    using test_detection_in_001 by (simp add: contains_def)
  have l2: "locate ?poly (160, 120) = INTERIOR"
    by (simp add: locate_def ring_edges_def on_segment_def ray_crosses_def orientation_def)
  define Q where "Q = (\<lambda>d::Detection. d \<in> set [test_detection, ?d2] \<and>
                   locate (polygon ?s) (center d) = INTERIOR)"
  have cq: "Collect Q = {test_detection, ?d2}"
    using l1 l2 by (auto simp: Q_def new_SlotState_def)
  have "{det_confidence d |d. Q d} = det_confidence ` Collect Q" by auto
  also have "\<dots> = {9/10, 7/10}" unfolding cq by (simp add: test_detection_def)
  finally have set_eq: "{det_confidence d |d. d \<in> set [test_detection, ?d2] \<and>
                   locate (polygon ?s) (center d) = INTERIOR} = {9/10, 7/10}"
    unfolding Q_def .
  have nn: "\<forall>d\<in>set [test_detection, ?d2]. 0 \<le> det_confidence d"
    by (simp add: test_detection_def)
  note inst = occupied_iff_center_in_interior[OF dist mem, of "[test_detection, ?d2]",
                unfolded set_eq]
  have ex: "\<exists>d\<in>set [test_detection, ?d2]. locate (polygon ?s) (center d) = INTERIOR"
    using l1 by (simp add: new_SlotState_def)
  from inst ex have st: "observed_state (slot_occupancy (slots test_processor)
        [test_detection, ?d2]) ''TEST_001'' = ''occupied''" by blast
  then have occ: "slot_occupancy (slots test_processor) [test_detection, ?d2] ''TEST_001''"
    by (simp add: observed_state_def split: if_splits)
  from inst nn occ have "observed_confidence
     (slot_occupancy (slots test_processor) [test_detection, ?d2])
     (slot_confidence (slots test_processor) [test_detection, ?d2]) ''TEST_001'' =
        Max {9/10, 7/10}" by blast
  then show ?thesis using st l1 by simp
qed

text \<open>
  A detection whose center \<open>(100, 150)\<close> lies on the left edge of the square of
  \<open>TEST_001\<close>: the center is on the boundary, and the slot is observed free.
\<close>

theorem boundary_center_not_contained:
  "locate [(100, 100), (200, 100), (200, 200), (100, 200)] (100, 150) = BOUNDARY \<and>
   observed_state
     (slot_occupancy (slots test_processor) [\<lparr>center = (100, 150), det_confidence = 9/10\<rparr>])
     ''TEST_001'' = ''free''"
proof -
  have b: "locate [(100, 100), (200, 100), (200, 200), (100, 200)] (100, 150) = BOUNDARY"
    by (simp add: locate_def ring_edges_def on_segment_def orientation_def)
  then show ?thesis
    by (simp add: test_slots slot_occupancy_def check_slots_def check_detection_def
          new_SlotState_def observed_state_def contains_def)
qed

text \<open>
  C4 (confidence of a free observation), as the code has it. For every slot observed
  free in a \<open>process_detections\<close> call the confidence handed on is 1.0, whatever
  detections the call had: \<open>slot_confidence\<close> is written only for a detection the
  slot contains, so \<open>1.0 - slot_confidence\<close> is \<open>1.0 - 0.0\<close>.
\<close>

theorem free_observation_confidence_one:
  assumes "\<not> slot_occupancy ss ds k"
  shows "observed_state (slot_occupancy ss ds) k = ''free'' \<and>
         observed_confidence (slot_occupancy ss ds) (slot_confidence ss ds) k = 1"
  using assms slot_confidence_free[OF assms]
  by (simp add: observed_state_def observed_confidence_def)

lemma far_detection_misses:
  "\<not> slot_occupancy (slots test_processor) [\<lparr>center = (500, 500), det_confidence = 9/10\<rparr>] k"
  by (simp add: test_slots slot_occupancy_def check_slots_def check_detection_def
        new_SlotState_def contains_def locate_def ring_edges_def on_segment_def
        ray_crosses_def orientation_def)

theorem free_observation_confidence_one_witness:
  "observed_state
     (slot_occupancy (slots test_processor) [\<lparr>center = (500, 500), det_confidence = 9/10\<rparr>])
     ''TEST_001'' = ''free'' \<and>
   observed_confidence
     (slot_occupancy (slots test_processor) [\<lparr>center = (500, 500), det_confidence = 9/10\<rparr>])
     (slot_confidence (slots test_processor) [\<lparr>center = (500, 500), det_confidence = 9/10\<rparr>])
     ''TEST_001'' = 1"
  by (rule free_observation_confidence_one[OF far_detection_misses])

text \<open>
  A detection of confidence 0.9 that the slot does not contain: the slot is observed
  free with confidence 1.0, which is not the complement 0.1.
\<close>

theorem near_miss_confidence_not_complement:
  "observed_state
     (slot_occupancy (slots test_processor) [\<lparr>center = (500, 500), det_confidence = 9/10\<rparr>])
     ''TEST_001'' = ''free'' \<and>
   observed_confidence
     (slot_occupancy (slots test_processor) [\<lparr>center = (500, 500), det_confidence = 9/10\<rparr>])
     (slot_confidence (slots test_processor) [\<lparr>center = (500, 500), det_confidence = 9/10\<rparr>])
     ''TEST_001'' \<noteq> 1 - det_confidence \<lparr>center = (500, 500), det_confidence = 9/10\<rparr>"
  using far_detection_misses[of "''TEST_001''"]
    slot_confidence_free[OF far_detection_misses[of "''TEST_001''"]]
  by (simp add: observed_state_def observed_confidence_def)

text \<open>
  The scenario of the tests, run: one detection at \<open>(150, 150)\<close> with confidence 0.9,
  two calls 0.2 seconds apart, \<open>debounce_seconds\<close> 0.1. The first call has no event;
  the second has the event of \<open>TEST_001\<close> becoming occupied and that of \<open>TEST_002\<close>,
  which no detection touches, becoming free.
\<close>

lemma test_scenario:
  "map_sum id snd (process_frames test_processor
       [([test_detection], ''t0'', 0), ([test_detection], ''t1'', 1/5)]) =
     Inr [[],
          [\<lparr>ev_slot_id = ''TEST_001'', ev_state = ''occupied'', ev_previous_state = ''unknown'',
             ev_confidence = 9/10, ev_ts_utc = ''t1'', ev_dwell_s = 0, ev_roi_version = ''v1''\<rparr>,
           \<lparr>ev_slot_id = ''TEST_002'', ev_state = ''free'', ev_previous_state = ''unknown'',
             ev_confidence = 1, ev_ts_utc = ''t1'', ev_dwell_s = 0, ev_roi_version = ''v1''\<rparr>]]"
  by code_simp

section \<open>Properties of the stats sender\<close>

text \<open>
  C10 (empty send). \<open>send_slot_events\<close> with an empty list of events returns
  \<open>True\<close> and leaves everything as it was: no request is made, nothing is written to
  the buffer, no counter and not the buffer depth changes, whatever the network and the
  database would have answered.
\<close>

theorem send_no_events_is_noop:
  "snd (send_slot_events dumps env st [] model_version) = True \<and>
   requests_made (fst (send_slot_events dumps env st [] model_version)) = requests_made st \<and>
   event_buffer (fst (send_slot_events dumps env st [] model_version)) = event_buffer st \<and>
   events_sent (fst (send_slot_events dumps env st [] model_version)) = events_sent st \<and>
   events_failed (fst (send_slot_events dumps env st [] model_version)) = events_failed st \<and>
   events_buffered (fst (send_slot_events dumps env st [] model_version)) = events_buffered st \<and>
   events_replayed (fst (send_slot_events dumps env st [] model_version)) = events_replayed st \<and>
   summaries_sent (fst (send_slot_events dumps env st [] model_version)) = summaries_sent st \<and>
   buffer_depth env' (fst (send_slot_events dumps env st [] model_version)) = buffer_depth env' st \<and>
   fst (send_slot_events dumps env st [] model_version) = st"
  by (simp add: send_slot_events_def)

theorem send_no_events_is_noop_witness:
  "send_slot_events demo_dumps offline (new_StatsSender\<lparr>event_buffer := [good_row]\<rparr>) [] ''yolov8m'' =
     (new_StatsSender\<lparr>event_buffer := [good_row]\<rparr>, True)"
  using send_no_events_is_noop[of demo_dumps offline
          "new_StatsSender\<lparr>event_buffer := [good_row]\<rparr>" "''yolov8m''" offline]
  by (simp add: prod_eq_iff)

subsection \<open>Replay\<close>

lemma decode_rows_ids:
  "decode_rows loads rows = Some (events, ids) \<Longrightarrow> ids = map row_id rows"
  by (induction rows arbitrary: events ids) (auto split: loaded.splits option.splits)

lemma decode_rows_events:
  "decode_rows loads rows = Some (events, ids) \<Longrightarrow>
   events = List.map_filter (\<lambda>r. case loads (payload r) of Loaded e \<Rightarrow> Some e | _ \<Rightarrow> None) rows"
  by (induction rows arbitrary: events ids)
     (auto simp: List.map_filter_simps split: loaded.splits option.splits)

lemma select_batch_rows:
  "0 \<le> n \<Longrightarrow> select_batch n rows = Inr batch \<Longrightarrow>
   n < 2 ^ 63 \<and> batch = take (nat n) (sort_key row_id rows)"
  by (auto simp: select_batch_def sqlite_int_def split: if_splits)

lemma select_batch_subset: "select_batch n rows = Inr batch \<Longrightarrow> set batch \<subseteq> set rows"
  by (auto simp: select_batch_def split: if_splits dest: in_set_takeD)

lemma select_batch_sorted: "select_batch n rows = Inr batch \<Longrightarrow> sorted (map row_id batch)"
  by (auto simp: select_batch_def take_map[symmetric] sorted_wrt_take split: if_splits)

lemma delete_ids_batch:
  assumes "distinct (map row_id rows)" and "set batch \<subseteq> set rows"
  shows "delete_ids (map row_id batch) rows = filter (\<lambda>r. r \<notin> set batch) rows"
proof -
  from assms(1) have inj: "inj_on row_id (set rows)" by (simp add: distinct_map)
  have "(row_id r \<notin> set (map row_id batch)) = (r \<notin> set batch)" if "r \<in> set rows" for r
    using that assms(2) inj by (auto simp: inj_on_def)
  then show ?thesis unfolding delete_ids_def by (intro filter_cong) auto
qed

lemma replay_not_committed_keeps_buffer:
  "\<not> (http env = Response 200 \<and> db_write_ok env) \<Longrightarrow>
   event_buffer (fst (replay_buffered_events loads env st n)) = event_buffer st \<and>
   events_replayed (fst (replay_buffered_events loads env st n)) = events_replayed st \<and>
   snd (replay_buffered_events loads env st n) = 0"
  by (auto simp: replay_buffered_events_def Let_def post_def
           split: option.splits http_result.splits sum.splits)

lemma replay_attempt:
  assumes "db_read_ok env"
    and "select_batch n (event_buffer st) = Inr batch"
    and "decode_rows loads batch = Some (events, ids)"
    and "events \<noteq> []"
  shows "replay_buffered_events loads env st n =
           (if http env = Response 200 \<and> db_write_ok env
            then ((post (PostEvents events ''replay'' True) st)
                    \<lparr>event_buffer := delete_ids ids (event_buffer st),
                     events_replayed := events_replayed st + length events\<rparr>, length events)
            else (post (PostEvents events ''replay'' True) st, 0))"
proof -
  from assms(3,4) have "batch \<noteq> []" by auto
  with assms show ?thesis
    by (cases "http env") (auto simp: replay_buffered_events_def post_def Let_def)
qed

text \<open>
  A \<open>batch_size\<close> that SQLite cannot take as an integer: the call returns 0 and has
  read, sent and deleted nothing.
\<close>

lemma replay_overflow:
  "\<not> sqlite_int batch_size \<Longrightarrow> replay_buffered_events loads env st batch_size = (st, 0)"
  by (simp add: replay_buffered_events_def select_batch_def)

text \<open>
  C6 (replay), as the code has it. A \<open>replay_buffered_events\<close> call that reaches the
  delivery (the database can be read, \<open>batch_size\<close> is not negative and is bound as
  the limit, the rows read decode to at least one event) has read the \<open>batch_size\<close>
  rows with the least ids, in ascending order of id, and has posted the events decoded
  from them, marked as a replay. When the answer is 200 and the delete is committed,
  the buffer has lost exactly the rows read and \<open>events_replayed\<close> has grown by the
  number of events sent, which is the result. In every other case (the delivery fails
  with another status or \<open>RequestException\<close>, or the delete after the answer 200
  fails) no row is deleted: buffer, buffer depth and counter are as before, the result
  is 0, and the next call reads the same rows.
\<close>

theorem replay_deletes_exactly_the_rows_read:
  assumes "0 \<le> batch_size" and "db_read_ok env"
    and "distinct (map row_id (event_buffer st))"
    and "select_batch batch_size (event_buffer st) = Inr batch"
    and "decode_rows loads batch = Some (events, ids)"
    and "events \<noteq> []"
    and "replay_buffered_events loads env st batch_size = (st', replayed)"
  shows "batch = take (nat batch_size) (sort_key row_id (event_buffer st)) \<and>
         sorted (map row_id batch) \<and>
         length batch \<le> nat batch_size \<and>
         events = List.map_filter
                    (\<lambda>r. case loads (payload r) of Loaded e \<Rightarrow> Some e | _ \<Rightarrow> None) batch \<and>
         requests_made st' = requests_made st @ [PostEvents events ''replay'' True] \<and>
         (http env = Response 200 \<and> db_write_ok env \<longrightarrow>
            event_buffer st' = filter (\<lambda>r. r \<notin> set batch) (event_buffer st) \<and>
            events_replayed st' = events_replayed st + length events \<and>
            replayed = length events) \<and>
         (\<not> (http env = Response 200 \<and> db_write_ok env) \<longrightarrow>
            event_buffer st' = event_buffer st \<and>
            buffer_depth env st' = buffer_depth env st \<and>
            events_replayed st' = events_replayed st \<and> replayed = 0 \<and>
            select_batch batch_size (event_buffer st') = Inr batch)"
proof -
  have ids: "ids = map row_id batch" by (rule decode_rows_ids[OF assms(5)])
  have del: "delete_ids ids (event_buffer st) = filter (\<lambda>r. r \<notin> set batch) (event_buffer st)"
    unfolding ids by (rule delete_ids_batch[OF assms(3) select_batch_subset[OF assms(4)]])
  have r: "(st', replayed) =
           (if http env = Response 200 \<and> db_write_ok env
            then ((post (PostEvents events ''replay'' True) st)
                    \<lparr>event_buffer := delete_ids ids (event_buffer st),
                     events_replayed := events_replayed st + length events\<rparr>, length events)
            else (post (PostEvents events ''replay'' True) st, 0))"
    using replay_attempt[OF assms(2,4,5,6)] assms(7) by simp
  have a: "batch = take (nat batch_size) (sort_key row_id (event_buffer st))"
    using select_batch_rows[OF assms(1,4)] by simp
  have b: "length batch \<le> nat batch_size" unfolding a by simp
  have c: "requests_made st' = requests_made st @ [PostEvents events ''replay'' True]"
    using r by (simp add: post_def split: if_splits)
  have d: "http env = Response 200 \<and> db_write_ok env \<longrightarrow>
            event_buffer st' = filter (\<lambda>r. r \<notin> set batch) (event_buffer st) \<and>
            events_replayed st' = events_replayed st + length events \<and>
            replayed = length events"
  proof (intro impI)
    assume h: "http env = Response 200 \<and> db_write_ok env"
    with r have "st' = (post (PostEvents events ''replay'' True) st)
                    \<lparr>event_buffer := delete_ids ids (event_buffer st),
                     events_replayed := events_replayed st + length events\<rparr>"
      "replayed = length events" by simp_all
    then show "event_buffer st' = filter (\<lambda>r. r \<notin> set batch) (event_buffer st) \<and>
            events_replayed st' = events_replayed st + length events \<and>
            replayed = length events"
      using del by (simp add: post_def)
  qed
  have e: "\<not> (http env = Response 200 \<and> db_write_ok env) \<longrightarrow>
            event_buffer st' = event_buffer st \<and>
            buffer_depth env st' = buffer_depth env st \<and>
            events_replayed st' = events_replayed st \<and> replayed = 0 \<and>
            select_batch batch_size (event_buffer st') = Inr batch"
  proof (intro impI)
    assume h: "\<not> (http env = Response 200 \<and> db_write_ok env)"
    with r have "st' = post (PostEvents events ''replay'' True) st" "replayed = 0"
      by simp_all
    then show "event_buffer st' = event_buffer st \<and>
            buffer_depth env st' = buffer_depth env st \<and>
            events_replayed st' = events_replayed st \<and> replayed = 0 \<and>
            select_batch batch_size (event_buffer st') = Inr batch"
      using assms(4) by (simp add: post_def buffer_depth_def)
  qed
  show ?thesis
    using a b c d e select_batch_sorted[OF assms(4)] decode_rows_events[OF assms(5)] by blast
qed

lemma backlog_batch: "select_batch 2 (event_buffer backlog) = Inr [corrupt_row, good_row]"
  by (simp add: select_batch_def sqlite_int_def backlog_def corrupt_row_def good_row_def
        later_row_def numeral_2_eq_2)

lemma backlog_decode:
  "decode_rows demo_loads [corrupt_row, good_row] = Some ([demo_event], [1, 2])"
  by (simp add: demo_loads_def corrupt_row_def good_row_def)

lemma backlog_distinct: "distinct (map row_id (event_buffer backlog))"
  by (simp add: backlog_def corrupt_row_def good_row_def later_row_def)

theorem replay_deletes_exactly_the_rows_read_witness:
  "event_buffer (fst (replay_buffered_events demo_loads online backlog 2)) = [later_row] \<and>
   events_replayed (fst (replay_buffered_events demo_loads online backlog 2)) = 1 \<and>
   snd (replay_buffered_events demo_loads online backlog 2) = 1 \<and>
   event_buffer (fst (replay_buffered_events demo_loads offline backlog 2)) =
     [corrupt_row, good_row, later_row] \<and>
   snd (replay_buffered_events demo_loads offline backlog 2) = 0"
proof -
  have neq: "later_row \<noteq> corrupt_row" "later_row \<noteq> good_row"
    by (simp_all add: later_row_def corrupt_row_def good_row_def)
  have on: "http online = Response 200 \<and> db_write_ok online" "db_read_ok online"
    by (simp_all add: online_def)
  have off: "\<not> (http offline = Response 200 \<and> db_write_ok offline)" "db_read_ok offline"
    by (simp_all add: offline_def)
  have ne: "[demo_event] \<noteq> []" by simp
  have buf: "event_buffer backlog = [corrupt_row, good_row, later_row]"
    by (simp add: backlog_def)
  have ev0: "events_replayed backlog = 0" by (simp add: backlog_def new_StatsSender_def)
  have zero: "(0::int) \<le> 2" by simp
  note A = replay_deletes_exactly_the_rows_read[OF zero on(2) backlog_distinct backlog_batch
         backlog_decode ne surjective_pairing]
  note B = replay_deletes_exactly_the_rows_read[OF zero off(2) backlog_distinct backlog_batch
         backlog_decode ne surjective_pairing]
  from A on(1)
  have a1: "event_buffer (fst (replay_buffered_events demo_loads online backlog 2)) =
          filter (\<lambda>r. r \<notin> set [corrupt_row, good_row]) (event_buffer backlog)"
    by blast
  from A on(1)
  have a2: "events_replayed (fst (replay_buffered_events demo_loads online backlog 2)) =
       events_replayed backlog + length [demo_event]"
    by blast
  from A on(1)
  have a3: "snd (replay_buffered_events demo_loads online backlog 2) = length [demo_event]"
    by blast
  from B off(1)
  have b1: "event_buffer (fst (replay_buffered_events demo_loads offline backlog 2)) = event_buffer backlog"
    by blast
  from B off(1)
  have b2: "snd (replay_buffered_events demo_loads offline backlog 2) = 0"
    by blast
  show ?thesis
    unfolding a1 a2 a3 b1 b2 by (simp add: buf ev0 neq)
qed

text \<open>
  The delivery is answered with 200, but the delete cannot be committed: the batch has
  been posted, all its rows are still in the buffer, \<open>events_replayed\<close> is still 0 and
  the call returns 0.
\<close>

theorem delivered_batch_kept_when_delete_fails:
  "http online_no_commit = Response 200 \<and>
   requests_made (fst (replay_buffered_events demo_loads online_no_commit backlog 2)) =
     [PostEvents [demo_event] ''replay'' True] \<and>
   event_buffer (fst (replay_buffered_events demo_loads online_no_commit backlog 2)) =
     [corrupt_row, good_row, later_row] \<and>
   events_replayed (fst (replay_buffered_events demo_loads online_no_commit backlog 2)) = 0 \<and>
   snd (replay_buffered_events demo_loads online_no_commit backlog 2) = 0"
proof -
  have "replay_buffered_events demo_loads online_no_commit backlog 2 =
          (post (PostEvents [demo_event] ''replay'' True) backlog, 0)"
    using replay_attempt[of online_no_commit 2 backlog "[corrupt_row, good_row]" demo_loads
            "[demo_event]" "[1, 2]"] backlog_batch backlog_decode
    by (simp add: online_no_commit_def)
  then show ?thesis
    by (simp add: post_def backlog_def new_StatsSender_def online_no_commit_def)
qed

text \<open>
  The round trip of one event through the buffer: a failed send persists it, a
  successful replay sends it, removes it and counts it once.
\<close>

lemma buffer_round_trip:
  assumes "event_buffer st = []"
    and "http down \<noteq> Response 200" and "db_write_ok down"
    and "http up = Response 200" and "db_read_ok up" and "db_write_ok up"
    and "loads (dumps e mv) = Loaded e" and "0 < n" and "n < 2 ^ 63"
  shows "length (event_buffer (fst (send_slot_events dumps down st [e] mv))) = 1 \<and>
         event_buffer (fst (replay_buffered_events loads up
                              (fst (send_slot_events dumps down st [e] mv)) n)) = [] \<and>
         events_replayed (fst (replay_buffered_events loads up
                              (fst (send_slot_events dumps down st [e] mv)) n)) =
           events_replayed st + 1 \<and>
         snd (replay_buffered_events loads up (fst (send_slot_events dumps down st [e] mv)) n) = 1"
proof -
  define row where "row = \<lparr> row_id = last_row_id st + 1, event_type = ''slot_event'',
       payload = dumps e mv, row_timestamp = now_iso down, retry_count = 0 \<rparr>"
  define st1 where "st1 = fst (send_slot_events dumps down st [e] mv)"
  have s: "send_slot_events dumps down st [e] mv =
             (buffer_events dumps down (post (PostEvents [e] mv False) st) [e] mv, False)"
    using assms(2) by (cases "http down") (simp_all add: send_slot_events_def Let_def)
  have buf: "event_buffer st1 = [row]" and rep: "events_replayed st1 = events_replayed st"
    using assms(1,3) by (simp_all add: st1_def s buffer_events_def post_def row_def)
  have sel: "select_batch n (event_buffer st1) = Inr [row]"
    using assms(8,9) by (cases "nat n") (simp_all add: buf select_batch_def sqlite_int_def)
  have dec: "decode_rows loads [row] = Some ([e], [row_id row])"
    using assms(7) by (simp add: row_def)
  have "replay_buffered_events loads up st1 n =
          ((post (PostEvents [e] ''replay'' True) st1)
             \<lparr>event_buffer := delete_ids [row_id row] (event_buffer st1),
              events_replayed := events_replayed st1 + length [e]\<rparr>, length [e])"
    using replay_attempt[OF assms(5) sel dec] assms(4,6) by simp
  then show ?thesis
    unfolding st1_def[symmetric] by (simp add: buf rep delete_ids_def)
qed

subsection \<open>A failed send\<close>

lemma new_rows_length: "length (new_rows dumps mv ts n events) = length events"
  by (induction events arbitrary: n) simp_all

lemma new_rows_payload:
  "map payload (new_rows dumps mv ts n events) = map (\<lambda>e. dumps e mv) events"
  by (induction events arbitrary: n) simp_all

lemma failed_send_slot_events:
  assumes "http env \<noteq> Response 200" and "events \<noteq> []"
  shows "send_slot_events dumps env st events mv =
           (buffer_events dumps env (post (PostEvents events mv False) st) events mv, False)"
  using assms by (cases "http env") (simp_all add: send_slot_events_def Let_def)

lemma failed_send_summary:
  assumes "http env \<noteq> Response 200"
  shows "send_summary env st summary = (post (PostSummary summary) st, False)"
  using assms by (cases "http env") (simp_all add: send_summary_def Let_def)

lemma failed_send_health:
  assumes "http env \<noteq> Response 200"
  shows "send_health env st health_data = (post (PostHealth health_data) st, False)"
  using assms by (cases "http env") (simp_all add: send_health_def Let_def)

text \<open>
  C7 (a failed send), as the code has it. When the immediate delivery fails (a status
  other than 200, or \<open>RequestException\<close>): the send of a batch of events that is not
  empty returns \<open>False\<close>, whether or not the buffer can be written; when it can, the
  events are persisted, one row for each event, and \<open>events_buffered\<close> grows by the
  number of events, the other counters staying as they are (when it cannot,
  \<open>events_failed\<close> grows by that number and nothing is persisted). A summary or a
  health snapshot is not persisted: the call returns \<open>False\<close> and leaves the sender
  as it was but for the request made, so the buffer and all five counters are
  unchanged. No exception leaves any of the three calls: each returns its boolean.
\<close>

theorem failed_send_buffers_events_only:
  assumes "http env \<noteq> Response 200"
  shows "(events \<noteq> [] \<longrightarrow>
            snd (send_slot_events dumps env st events mv) = False \<and>
            requests_made (fst (send_slot_events dumps env st events mv)) =
              requests_made st @ [PostEvents events mv False] \<and>
            events_sent (fst (send_slot_events dumps env st events mv)) = events_sent st \<and>
            events_replayed (fst (send_slot_events dumps env st events mv)) = events_replayed st \<and>
            summaries_sent (fst (send_slot_events dumps env st events mv)) = summaries_sent st) \<and>
         (events \<noteq> [] \<and> db_write_ok env \<longrightarrow>
            event_buffer (fst (send_slot_events dumps env st events mv)) =
              event_buffer st @ new_rows dumps mv (now_iso env) (last_row_id st) events \<and>
            length (new_rows dumps mv (now_iso env) (last_row_id st) events) = length events \<and>
            map payload (new_rows dumps mv (now_iso env) (last_row_id st) events) =
              map (\<lambda>e. dumps e mv) events \<and>
            events_buffered (fst (send_slot_events dumps env st events mv)) =
              events_buffered st + length events \<and>
            events_failed (fst (send_slot_events dumps env st events mv)) = events_failed st) \<and>
         (events \<noteq> [] \<and> \<not> db_write_ok env \<longrightarrow>
            event_buffer (fst (send_slot_events dumps env st events mv)) = event_buffer st \<and>
            events_buffered (fst (send_slot_events dumps env st events mv)) = events_buffered st \<and>
            events_failed (fst (send_slot_events dumps env st events mv)) =
              events_failed st + length events) \<and>
         send_summary env st summary =
           (st\<lparr>requests_made := requests_made st @ [PostSummary summary]\<rparr>, False) \<and>
         event_buffer (fst (send_summary env st summary)) = event_buffer st \<and>
         events_sent (fst (send_summary env st summary)) = events_sent st \<and>
         events_failed (fst (send_summary env st summary)) = events_failed st \<and>
         events_buffered (fst (send_summary env st summary)) = events_buffered st \<and>
         events_replayed (fst (send_summary env st summary)) = events_replayed st \<and>
         summaries_sent (fst (send_summary env st summary)) = summaries_sent st \<and>
         send_health env st health_data =
           (st\<lparr>requests_made := requests_made st @ [PostHealth health_data]\<rparr>, False) \<and>
         event_buffer (fst (send_health env st health_data)) = event_buffer st \<and>
         events_sent (fst (send_health env st health_data)) = events_sent st \<and>
         events_failed (fst (send_health env st health_data)) = events_failed st \<and>
         events_buffered (fst (send_health env st health_data)) = events_buffered st \<and>
         events_replayed (fst (send_health env st health_data)) = events_replayed st \<and>
         summaries_sent (fst (send_health env st health_data)) = summaries_sent st"
proof -
  have ev: "events \<noteq> [] \<longrightarrow>
            snd (send_slot_events dumps env st events mv) = False \<and>
            requests_made (fst (send_slot_events dumps env st events mv)) =
              requests_made st @ [PostEvents events mv False] \<and>
            events_sent (fst (send_slot_events dumps env st events mv)) = events_sent st \<and>
            events_replayed (fst (send_slot_events dumps env st events mv)) = events_replayed st \<and>
            summaries_sent (fst (send_slot_events dumps env st events mv)) = summaries_sent st"
    by (simp add: failed_send_slot_events[OF assms] buffer_events_def post_def)
  have ok: "events \<noteq> [] \<and> db_write_ok env \<longrightarrow>
            event_buffer (fst (send_slot_events dumps env st events mv)) =
              event_buffer st @ new_rows dumps mv (now_iso env) (last_row_id st) events \<and>
            length (new_rows dumps mv (now_iso env) (last_row_id st) events) = length events \<and>
            map payload (new_rows dumps mv (now_iso env) (last_row_id st) events) =
              map (\<lambda>e. dumps e mv) events \<and>
            events_buffered (fst (send_slot_events dumps env st events mv)) =
              events_buffered st + length events \<and>
            events_failed (fst (send_slot_events dumps env st events mv)) = events_failed st"
    by (simp add: failed_send_slot_events[OF assms] buffer_events_def post_def
          new_rows_payload new_rows_length)
  have bad: "events \<noteq> [] \<and> \<not> db_write_ok env \<longrightarrow>
            event_buffer (fst (send_slot_events dumps env st events mv)) = event_buffer st \<and>
            events_buffered (fst (send_slot_events dumps env st events mv)) = events_buffered st \<and>
            events_failed (fst (send_slot_events dumps env st events mv)) =
              events_failed st + length events"
    by (simp add: failed_send_slot_events[OF assms] buffer_events_def post_def)
  have su: "send_summary env st summary =
           (st\<lparr>requests_made := requests_made st @ [PostSummary summary]\<rparr>, False)"
    by (simp add: failed_send_summary[OF assms] post_def)
  have he: "send_health env st health_data =
           (st\<lparr>requests_made := requests_made st @ [PostHealth health_data]\<rparr>, False)"
    by (simp add: failed_send_health[OF assms] post_def)
  show ?thesis
    using ev ok bad by (simp add: su he)
qed

theorem failed_send_buffers_events_only_witness:
  "snd (send_slot_events demo_dumps offline new_StatsSender [demo_event] ''yolov8m'') = False \<and>
   map payload (event_buffer
      (fst (send_slot_events demo_dumps offline new_StatsSender [demo_event] ''yolov8m''))) =
     [''{event}''] \<and>
   events_buffered
      (fst (send_slot_events demo_dumps offline new_StatsSender [demo_event] ''yolov8m'')) = 1 \<and>
   send_health offline new_StatsSender [(''cpu'', ''41'')] =
     (new_StatsSender\<lparr>requests_made := [PostHealth [(''cpu'', ''41'')]]\<rparr>, False)"
proof -
  have off: "http offline \<noteq> Response 200" by (simp add: offline_def)
  have w: "[demo_event] \<noteq> []" "db_write_ok offline" by (simp_all add: offline_def)
  note A = failed_send_buffers_events_only[OF off, where events = "[demo_event]"
             and dumps = demo_dumps and st = new_StatsSender and mv = "''yolov8m''"
             and summary = "get_summary test_processor ''t0''"
             and health_data = "[(''cpu'', ''41'')]"]
  from A w have a1:
    "snd (send_slot_events demo_dumps offline new_StatsSender [demo_event] ''yolov8m'') = False"
    by blast
  from A w have a2:
    "event_buffer (fst (send_slot_events demo_dumps offline new_StatsSender [demo_event] ''yolov8m'')) =
       event_buffer new_StatsSender @
       new_rows demo_dumps ''yolov8m'' (now_iso offline) (last_row_id new_StatsSender) [demo_event]"
    by blast
  from A w have a3:
    "events_buffered (fst (send_slot_events demo_dumps offline new_StatsSender [demo_event] ''yolov8m'')) =
       events_buffered new_StatsSender + length [demo_event]"
    by blast
  from A have a4: "send_health offline new_StatsSender [(''cpu'', ''41'')] =
      (new_StatsSender\<lparr>requests_made :=
          requests_made new_StatsSender @ [PostHealth [(''cpu'', ''41'')]]\<rparr>, False)"
    by blast
  show ?thesis
    unfolding a1 a2 a3 a4 by (simp add: new_StatsSender_def demo_dumps_def)
qed

text \<open>
  A summary whose delivery fails: the call returns \<open>False\<close>, the buffer stays empty
  and \<open>events_buffered\<close> stays 0.
\<close>

theorem failed_summary_is_not_buffered:
  "snd (send_summary offline new_StatsSender (get_summary test_processor ''t0'')) = False \<and>
   event_buffer (fst (send_summary offline new_StatsSender (get_summary test_processor ''t0''))) = [] \<and>
   events_buffered (fst (send_summary offline new_StatsSender (get_summary test_processor ''t0''))) = 0"
  by (simp add: send_summary_def offline_def post_def new_StatsSender_def)

subsection \<open>Undecodable rows\<close>

text \<open>
  C8 (an undecodable row), as the code has it. A row whose payload does not parse is
  put on the list of ids to delete, and that list is deleted when the batch has been
  delivered: when a batch read holds such a row beside at least one row that decodes,
  the delivery is answered with 200 and the delete is committed, the row is removed
  with the rows delivered. When the delivery fails (or the delete after the answer 200
  fails), no row is deleted and the undecodable row stays in the buffer with the
  others.
\<close>

theorem undecodable_row_goes_with_delivered_batch:
  assumes "db_read_ok env"
    and "select_batch batch_size (event_buffer st) = Inr batch"
    and "decode_rows loads batch = Some (events, ids)"
    and "events \<noteq> []"
    and "r \<in> set batch"
    and "loads (payload r) = JSONDecodeError"
    and "replay_buffered_events loads env st batch_size = (st', replayed)"
  shows "(http env = Response 200 \<and> db_write_ok env \<longrightarrow> r \<notin> set (event_buffer st')) \<and>
         (\<not> (http env = Response 200 \<and> db_write_ok env) \<longrightarrow>
            event_buffer st' = event_buffer st \<and> r \<in> set (event_buffer st'))"
proof -
  have ids: "ids = map row_id batch" by (rule decode_rows_ids[OF assms(3)])
  with assms(5) have rid: "row_id r \<in> set ids" by simp
  from assms(5) select_batch_subset[OF assms(2)] have mem: "r \<in> set (event_buffer st)" by blast
  have r: "(st', replayed) =
           (if http env = Response 200 \<and> db_write_ok env
            then ((post (PostEvents events ''replay'' True) st)
                    \<lparr>event_buffer := delete_ids ids (event_buffer st),
                     events_replayed := events_replayed st + length events\<rparr>, length events)
            else (post (PostEvents events ''replay'' True) st, 0))"
    using replay_attempt[OF assms(1,2,3,4)] assms(7) by simp
  have a: "http env = Response 200 \<and> db_write_ok env \<longrightarrow> r \<notin> set (event_buffer st')"
  proof (intro impI)
    assume "http env = Response 200 \<and> db_write_ok env"
    with r have "event_buffer st' = delete_ids ids (event_buffer st)" by simp
    then show "r \<notin> set (event_buffer st')" using rid by (simp add: delete_ids_def)
  qed
  have b: "\<not> (http env = Response 200 \<and> db_write_ok env) \<longrightarrow>
            event_buffer st' = event_buffer st \<and> r \<in> set (event_buffer st')"
  proof (intro impI)
    assume "\<not> (http env = Response 200 \<and> db_write_ok env)"
    with r have "st' = post (PostEvents events ''replay'' True) st" by simp
    then show "event_buffer st' = event_buffer st \<and> r \<in> set (event_buffer st')"
      using mem by (simp add: post_def)
  qed
  from a b show ?thesis by blast
qed

theorem undecodable_row_goes_with_delivered_batch_witness:
  "corrupt_row \<notin> set (event_buffer (fst (replay_buffered_events demo_loads online backlog 2))) \<and>
   corrupt_row \<in> set (event_buffer
      (fst (replay_buffered_events demo_loads online_no_commit backlog 2))) \<and>
   demo_loads (payload corrupt_row) = JSONDecodeError"
proof -
  have on: "http online = Response 200 \<and> db_write_ok online" "db_read_ok online"
    by (simp_all add: online_def)
  have nc: "\<not> (http online_no_commit = Response 200 \<and> db_write_ok online_no_commit)"
    "db_read_ok online_no_commit"
    by (simp_all add: online_no_commit_def)
  have ne: "[demo_event] \<noteq> []" by simp
  have mem: "corrupt_row \<in> set [corrupt_row, good_row]" by simp
  have bad: "demo_loads (payload corrupt_row) = JSONDecodeError"
    by (simp add: demo_loads_def corrupt_row_def)
  note A = undecodable_row_goes_with_delivered_batch[OF on(2) backlog_batch backlog_decode ne
             mem bad surjective_pairing]
  note B = undecodable_row_goes_with_delivered_batch[OF nc(2) backlog_batch backlog_decode ne
             mem bad surjective_pairing]
  from A on(1) have a: "corrupt_row \<notin> set (event_buffer
      (fst (replay_buffered_events demo_loads online backlog 2)))" by blast
  from B nc(1) have b: "corrupt_row \<in> set (event_buffer
      (fst (replay_buffered_events demo_loads online_no_commit backlog 2)))" by blast
  from a b bad show ?thesis by blast
qed

text \<open>
  The delivery fails: the undecodable row of the batch read is still in the buffer.
\<close>

theorem undecodable_row_kept_when_delivery_fails:
  "demo_loads (payload corrupt_row) = JSONDecodeError \<and>
   select_batch 2 (event_buffer backlog) = Inr [corrupt_row, good_row] \<and>
   corrupt_row \<in> set (event_buffer (fst (replay_buffered_events demo_loads offline backlog 2)))"
proof -
  have "replay_buffered_events demo_loads offline backlog 2 =
          (post (PostEvents [demo_event] ''replay'' True) backlog, 0)"
    using replay_attempt[of offline 2 backlog "[corrupt_row, good_row]" demo_loads
            "[demo_event]" "[1, 2]"] backlog_batch backlog_decode
    by (simp add: offline_def)
  then have c: "corrupt_row \<in> set (event_buffer (fst (replay_buffered_events demo_loads offline backlog 2)))"
    by (simp add: post_def backlog_def)
  have a: "demo_loads (payload corrupt_row) = JSONDecodeError"
    by (simp add: demo_loads_def corrupt_row_def)
  from a backlog_batch c show ?thesis by blast
qed

text \<open>
  A batch in which no row decodes is not sent and not deleted: the call returns 0 and
  changes nothing, so the same rows are read again by the next call.
\<close>

lemma replay_all_undecodable_keeps_rows:
  "select_batch batch_size (event_buffer st) = Inr batch \<Longrightarrow>
   decode_rows loads batch = Some ([], ids) \<Longrightarrow>
   replay_buffered_events loads env st batch_size = (st, 0)"
  by (simp add: replay_buffered_events_def Let_def)

lemma replay_only_corrupt_row:
  "replay_buffered_events demo_loads online (new_StatsSender\<lparr>event_buffer := [corrupt_row]\<rparr>) 50 =
     (new_StatsSender\<lparr>event_buffer := [corrupt_row]\<rparr>, 0)"
  by (rule replay_all_undecodable_keeps_rows[where ids = "[1]" and batch = "[corrupt_row]"])
     (simp_all add: select_batch_def sqlite_int_def demo_loads_def corrupt_row_def)

end
